theory Spec2Isabelle
  imports Main "HOL-Library.AList"
begin

section \<open>Data model\<close>

text \<open>
  Python dictionaries keep insertion order, and assigning to a key that is already there
  keeps the key's position. Both are what \<open>AList.update\<close> does on an association list,
  so every dictionary of \<open>ibpmvis.py\<close> is an association list read with \<open>map_of\<close>.
  Strings are \<open>string\<close>; the aliases of nodes and edges are taken after \<open>str(...)\<close>.
  The input is the parsed JSON document with the keys that \<open>readFlow\<close> subscripts
  (\<open>nodes\<close>, \<open>edges\<close>, \<open>data\<close>, \<open>alias\<close>, \<open>source\<close>, \<open>target\<close>) present and the aliases and
  formulas strings; the keys read with \<open>.get\<close> may be absent.
\<close>

type_synonym 'v dict = "(string \<times> 'v) list"

datatype error = KeyError string | TypeError | IndexError

text \<open>The input document: one entry of a node's \<open>output\<close>, \<open>inoutput\<close> or \<open>fields\<close> list.\<close>

record field_in =
  fi_alias :: string
  fi_formula :: "string option"
  fi_select :: bool

record node_in =
  ni_alias :: string
  ni_name :: "string option"
  ni_type :: "string option"
  ni_output :: "field_in list"
  ni_inoutput :: "field_in list"
  ni_fields :: "field_in list"

record edge_in =
  ei_source :: string
  ei_target :: string

record flow_in =
  fl_nodes :: "node_in list"
  fl_edges :: "edge_in list"

text \<open>
  The catalog that \<open>readFlow\<close> builds. \<open>fsource\<close> is the key \<open>'source'\<close> of a field's
  dictionary (absent until a match sets it); \<open>source\<close> and \<open>target\<close> are the keys of a link;
  \<open>alias_of\<close> and \<open>output_of\<close> are the keys \<open>'alias'\<close> and \<open>'output'\<close> of a node.
\<close>

record field_ref =
  nodeId :: string
  fieldAlias :: string

record field_meta =
  formula :: string
  fsource :: "field_ref option"

record node_out =
  name :: "string option"
  alias_of :: string
  nodeType :: "string option"
  output_of :: "field_meta dict"

record link =
  source :: field_ref
  target :: field_ref

section \<open>The match test of readFlow\<close>

text \<open>
  The pattern is \<open>(?<![a-zA-Z0-9_])\<close>, then \<open>re.escape(sField)\<close>, then \<open>(?![a-zA-Z0-9_])\<close>.
  An escaped string matches itself character by character, a negative lookbehind holds
  at a position whose previous character is absent or outside the class, a negative
  lookahead likewise for the next character, and \<open>re.search\<close> tries every start position
  from the left, the end of the text included.
\<close>

definition is_word_char :: "char \<Rightarrow> bool" where
  "is_word_char c \<longleftrightarrow>
     c \<in> set (''abcdefghijklmnopqrstuvwxyz'' @ ''ABCDEFGHIJKLMNOPQRSTUVWXYZ'' @ ''0123456789_'')"

fun lookbehind_ok :: "char option \<Rightarrow> bool" where
  "lookbehind_ok None = True"
| "lookbehind_ok (Some c) = (\<not> is_word_char c)"

fun lookahead_ok :: "string \<Rightarrow> bool" where
  "lookahead_ok [] = True"
| "lookahead_ok (c # cs) = (\<not> is_word_char c)"

fun literal_at :: "string \<Rightarrow> string \<Rightarrow> string option" where
  "literal_at [] text = Some text"
| "literal_at (p # ps) [] = None"
| "literal_at (p # ps) (c # cs) = (if p = c then literal_at ps cs else None)"

definition match_here :: "char option \<Rightarrow> string \<Rightarrow> string \<Rightarrow> bool" where
  "match_here prev sField text =
     (lookbehind_ok prev \<and>
      (case literal_at sField text of None \<Rightarrow> False | Some rest \<Rightarrow> lookahead_ok rest))"

fun search_from :: "char option \<Rightarrow> string \<Rightarrow> string \<Rightarrow> bool" where
  "search_from prev sField [] = match_here prev sField []"
| "search_from prev sField (c # cs) =
     (match_here prev sField (c # cs) \<or> search_from (Some c) sField cs)"

definition re_search :: "string \<Rightarrow> string \<Rightarrow> bool" where
  "re_search sField text = search_from None sField text"

section \<open>readFlow\<close>

text \<open>The three field groups of a node, later groups overwriting earlier ones.\<close>

definition formula_or_empty :: "field_in \<Rightarrow> string" where
  "formula_or_empty field = (case fi_formula field of None \<Rightarrow> [] | Some f \<Rightarrow> f)"

definition collect_output :: "node_in \<Rightarrow> field_meta dict" where
  "collect_output node =
     (let out1 = fold (\<lambda>field out.
                    AList.update (fi_alias field)
                      \<lparr>formula = formula_or_empty field, fsource = None\<rparr> out)
                  (ni_output node) [];
          out2 = fold (\<lambda>field out.
                    AList.update (fi_alias field)
                      \<lparr>formula = fi_alias field, fsource = None\<rparr> out)
                  (ni_inoutput node) out1
      in fold (\<lambda>field out.
                 if fi_select field
                 then AList.update (fi_alias field)
                        \<lparr>formula = fi_alias field, fsource = None\<rparr> out
                 else out)
              (ni_fields node) out2)"

definition add_node :: "node_in \<Rightarrow> node_out dict \<Rightarrow> node_out dict" where
  "add_node node nodes =
     (if ni_type node = Some ''exception'' then nodes
      else AList.update (ni_alias node)
             \<lparr>name = ni_name node, alias_of = ni_alias node, nodeType = ni_type node,
              output_of = collect_output node\<rparr> nodes)"

definition build_nodes :: "node_in list \<Rightarrow> node_out dict" where
  "build_nodes ns = fold add_node ns []"

text \<open>
  The body of the innermost loop on a match: the annotation of the target field is
  overwritten and the link is appended. The two keys written through exist: \<open>tgt\<close> was
  just read from \<open>nodes\<close> and \<open>tField\<close> comes from iterating that node's fields.
\<close>

definition set_source :: "field_ref \<Rightarrow> string \<Rightarrow> string \<Rightarrow> node_out dict \<Rightarrow> node_out dict" where
  "set_source ref tgt tField nodes =
     AList.map_entry tgt
       (\<lambda>n. n\<lparr>output_of := AList.map_entry tField (\<lambda>m. m\<lparr>fsource := Some ref\<rparr>) (output_of n)\<rparr>)
       nodes"

definition record_link ::
  "string \<Rightarrow> string \<Rightarrow> string \<Rightarrow> string \<Rightarrow> node_out dict \<times> link list \<Rightarrow> node_out dict \<times> link list" where
  "record_link src sField tgt tField st =
     (let ref = \<lparr>nodeId = src, fieldAlias = sField\<rparr>
      in (set_source ref tgt tField (fst st),
          snd st @ [\<lparr>source = ref, target = \<lparr>nodeId = tgt, fieldAlias = tField\<rparr>\<rparr>]))"

text \<open>
  The loops over \<open>targetFields.items()\<close> and \<open>sourceFields\<close> run over the keys and formulas
  read when the edge is entered: the body writes only the \<open>'source'\<close> entry of a field, so
  neither the keys nor the formulas change while the loops run (also when \<open>src = tgt\<close>).
\<close>

definition match_sources ::
  "string \<Rightarrow> string list \<Rightarrow> string \<Rightarrow> string \<times> field_meta \<Rightarrow>
   node_out dict \<times> link list \<Rightarrow> node_out dict \<times> link list" where
  "match_sources src sFields tgt tf st =
     fold (\<lambda>sField st'.
             if re_search sField (formula (snd tf))
             then record_link src sField tgt (fst tf) st' else st')
          sFields st"

definition process_edge ::
  "edge_in \<Rightarrow> node_out dict \<times> link list \<Rightarrow> error + node_out dict \<times> link list" where
  "process_edge edge st =
     (let src = ei_source edge; tgt = ei_target edge in
      case map_of (fst st) src of
        None \<Rightarrow> Inl (KeyError src)
      | Some sn \<Rightarrow>
         (case map_of (fst st) tgt of
            None \<Rightarrow> Inl (KeyError tgt)
          | Some tn \<Rightarrow>
              Inr (fold (match_sources src (map fst (output_of sn)) tgt) (output_of tn) st)))"

fun process_edges ::
  "edge_in list \<Rightarrow> node_out dict \<times> link list \<Rightarrow> error + node_out dict \<times> link list" where
  "process_edges [] st = Inr st"
| "process_edges (edge # es) st =
     (case process_edge edge st of
        Inl err \<Rightarrow> Inl err
      | Inr st' \<Rightarrow> process_edges es st')"

definition readFlow :: "flow_in \<Rightarrow> error + node_out dict \<times> link list" where
  "readFlow file = process_edges (fl_edges file) (build_nodes (fl_nodes file), [])"

section \<open>compute_levels\<close>

text \<open>
  \<open>children\<close> is a \<open>defaultdict(list)\<close>: reading a missing key gives the empty list.
  \<open>indegree\<close> holds Python integers, \<open>levels\<close> holds \<open>None\<close> or an integer, and the deque
  is a list that is popped at the left and appended to at the right.
\<close>

type_synonym level_state = "int dict \<times> int option dict \<times> string list"

definition children_of :: "string list dict \<Rightarrow> string \<Rightarrow> string list" where
  "children_of children nid = (case map_of children nid of None \<Rightarrow> [] | Some cs \<Rightarrow> cs)"

definition add_link :: "link \<Rightarrow> string list dict \<times> int dict \<Rightarrow> string list dict \<times> int dict" where
  "add_link l st =
     (let src = nodeId (source l); tgt = nodeId (target l)
      in (AList.update src (children_of (fst st) src @ [tgt]) (fst st),
          AList.update tgt ((case map_of (snd st) tgt of None \<Rightarrow> 0 | Some d \<Rightarrow> d) + 1) (snd st)))"

definition count_links :: "string list \<Rightarrow> link list \<Rightarrow> string list dict \<times> int dict" where
  "count_links nodes links = fold add_link links ([], fold (\<lambda>nid. AList.update nid 0) nodes [])"

definition initial_queue :: "int dict \<Rightarrow> string list" where
  "initial_queue indegree = map fst (filter (\<lambda>p. snd p = 0) indegree)"

definition initial_levels :: "string list \<Rightarrow> string list \<Rightarrow> int option dict" where
  "initial_levels nodes queue =
     fold (\<lambda>nid. AList.update nid (Some 0)) queue (fold (\<lambda>nid. AList.update nid None) nodes [])"

text \<open>
  One pass of the body of \<open>for c in children[nid]\<close>. Each subscript of the source that can
  raise is a branch: \<open>indegree[c]\<close>, \<open>levels[nid]\<close> (and adding 1 to \<open>None\<close>), \<open>levels[c]\<close>.
\<close>

fun visit_child :: "string \<Rightarrow> string \<Rightarrow> level_state \<Rightarrow> error + level_state" where
  "visit_child nid c (indegree, levels, queue) =
     (case map_of indegree c of
        None \<Rightarrow> Inl (KeyError c)
      | Some d \<Rightarrow>
         (case map_of levels nid of
            None \<Rightarrow> Inl (KeyError nid)
          | Some None \<Rightarrow> Inl TypeError
          | Some (Some ln) \<Rightarrow>
             (case map_of levels c of
                None \<Rightarrow> Inl (KeyError c)
              | Some lc \<Rightarrow>
                  Inr (AList.update c (d - 1) indegree,
                       (case lc of
                          None \<Rightarrow> AList.update c (Some (ln + 1)) levels
                        | Some old \<Rightarrow>
                            if ln + 1 > old then AList.update c (Some (ln + 1)) levels
                            else levels),
                       if d - 1 = 0 then queue @ [c] else queue))))"

fun visit_children :: "string \<Rightarrow> string list \<Rightarrow> level_state \<Rightarrow> error + level_state" where
  "visit_children nid [] st = Inr st"
| "visit_children nid (c # cs) st =
     (case visit_child nid c st of
        Inl err \<Rightarrow> Inl err
      | Inr st' \<Rightarrow> visit_children nid cs st')"

definition queue_measure :: "level_state \<Rightarrow> nat" where
  "queue_measure st =
     (case st of (indegree, levels, queue) \<Rightarrow>
        2 * sum_list (map (\<lambda>p. nat (snd p)) indegree) + length queue)"

lemma sum_update:
  "map_of al k = Some d \<Longrightarrow>
   sum_list (map (\<lambda>p. nat (snd p)) (AList.update k v al)) + nat d =
   sum_list (map (\<lambda>p. nat (snd p)) al) + nat v"
  by (induction al) (auto split: if_splits)

lemma visit_child_measure:
  assumes "visit_child nid c st = Inr st'"
  shows "queue_measure st' \<le> queue_measure st"
proof -
  obtain indegree levels queue where st: "st = (indegree, levels, queue)"
    by (cases st)
  from assms obtain d where d: "map_of indegree c = Some d"
    and st': "fst st' = AList.update c (d - 1) indegree"
             "snd (snd st') = (if d - 1 = 0 then queue @ [c] else queue)"
    unfolding st by (auto split: option.splits)
  from sum_update[OF d, of "d - 1"]
  have "2 * sum_list (map (\<lambda>p. nat (snd p)) (fst st')) + length (snd (snd st'))
        \<le> 2 * sum_list (map (\<lambda>p. nat (snd p)) indegree) + length queue"
    unfolding st' by (auto split: if_splits)
  then show ?thesis
    unfolding st queue_measure_def by (cases st') simp
qed

lemma visit_children_measure:
  "visit_children nid cs st = Inr st' \<Longrightarrow> queue_measure st' \<le> queue_measure st"
proof (induction cs arbitrary: st)
  case Nil
  then show ?case by simp
next
  case (Cons c cs)
  from Cons.prems obtain st1 where "visit_child nid c st = Inr st1"
    "visit_children nid cs st1 = Inr st'"
    by (auto split: sum.splits)
  with Cons.IH visit_child_measure show ?case
    by (meson order_trans)
qed

function process_queue :: "string list dict \<Rightarrow> level_state \<Rightarrow> error + level_state" where
  "process_queue children (indegree, levels, []) = Inr (indegree, levels, [])"
| "process_queue children (indegree, levels, nid # queue) =
     (case visit_children nid (children_of children nid) (indegree, levels, queue) of
        Inl err \<Rightarrow> Inl err
      | Inr st' \<Rightarrow> process_queue children st')"
  by pat_completeness auto
termination
proof (relation "measure (\<lambda>(children, st). queue_measure st)")
  show "wf (measure (\<lambda>(children, st). queue_measure st))" by simp
next
  fix children :: "string list dict" and indegree levels nid queue and st' :: level_state
  assume "visit_children nid (children_of children nid) (indegree, levels, queue) = Inr st'"
  from visit_children_measure[OF this]
  show "((children, st'), (children, indegree, levels, nid # queue))
        \<in> measure (\<lambda>(children, st). queue_measure st)"
    by (simp add: queue_measure_def)
qed

definition assign_levels :: "string list \<Rightarrow> link list \<Rightarrow> error + int option dict" where
  "assign_levels nodes links =
     (let counted = count_links nodes links;
          queue = initial_queue (snd counted);
          levels = initial_levels nodes queue
      in case process_queue (fst counted) (snd counted, levels, queue) of
           Inl err \<Rightarrow> Inl err
         | Inr st \<Rightarrow> Inr (fst (snd st)))"

text \<open>
  Grouping and sorting. \<open>sorted\<close> compares the keys with \<open><\<close>: among integers that is
  the usual order, and \<open>None\<close> against an integer raises \<open>TypeError\<close>. A list of one key is
  returned without any comparison, also when the key is \<open>None\<close>.
\<close>

definition group_of :: "(int option \<times> string list) list \<Rightarrow> int option \<Rightarrow> string list" where
  "group_of groups lvl = (case map_of groups lvl of None \<Rightarrow> [] | Some g \<Rightarrow> g)"

definition add_to_group ::
  "string \<times> int option \<Rightarrow> (int option \<times> string list) list \<Rightarrow> (int option \<times> string list) list" where
  "add_to_group p groups = AList.update (snd p) (group_of groups (snd p) @ [fst p]) groups"

definition py_sorted :: "int option list \<Rightarrow> error + int option list" where
  "py_sorted ks =
     (if None \<in> set ks then (if length ks \<le> 1 then Inr ks else Inl TypeError)
      else Inr (map Some (sort (map the ks))))"

definition group_levels :: "int option dict \<Rightarrow> error + string list list" where
  "group_levels levels =
     (let groups = fold add_to_group levels []
      in case py_sorted (map fst groups) of
           Inl err \<Rightarrow> Inl err
         | Inr ks \<Rightarrow> Inr (map (group_of groups) ks))"

definition compute_levels :: "'v dict \<Rightarrow> link list \<Rightarrow> error + string list list" where
  "compute_levels nodes links =
     (case assign_levels (map fst nodes) links of
        Inl err \<Rightarrow> Inl err
      | Inr levels \<Rightarrow> group_levels levels)"

text \<open>The node-level edges that the links project to, one per link.\<close>

definition node_edges :: "link list \<Rightarrow> (string \<times> string) list" where
  "node_edges links = map (\<lambda>l. (nodeId (source l), nodeId (target l))) links"

section \<open>main\<close>

text \<open>
  \<open>main\<close> on the parsed document: \<open>file['flow']\<close> is the list of flows, of which the
  first is read. An exception inside the \<open>try\<close> block is printed and the process exits
  with status 1; an exception of \<open>compute_levels\<close> is not caught, so the interpreter
  prints it and exits with status 1 as well. The artifact is what is written to the
  output file; \<open>writable\<close> says whether the write succeeds.
\<close>

record payload =
  p_nodes :: "node_out dict"
  p_links :: "link list"
  p_levels :: "string list list"

datatype outcome = Load_failed error | Uncaught error | Write_failed | Generated payload

fun exit_code :: "outcome \<Rightarrow> nat" where
  "exit_code (Generated p) = 0"
| "exit_code other = 1"

fun artifact :: "outcome \<Rightarrow> payload option" where
  "artifact (Generated p) = Some p"
| "artifact other = None"

definition main :: "flow_in list \<Rightarrow> bool \<Rightarrow> outcome" where
  "main flows writable =
     (case flows of
        [] \<Rightarrow> Load_failed IndexError
      | file # rest \<Rightarrow>
         (case readFlow file of
            Inl err \<Rightarrow> Load_failed err
          | Inr data \<Rightarrow>
             (case compute_levels (fst data) (snd data) of
                Inl err \<Rightarrow> Uncaught err
              | Inr levels \<Rightarrow>
                  if writable
                  then Generated \<lparr>p_nodes = fst data, p_links = snd data, p_levels = levels\<rparr>
                  else Write_failed)))"

section \<open>The reachability highlighter\<close>

text \<open>
  The script embedded in \<open>html_template\<close>. A field key is \<open>nodeId + '|' + fieldAlias\<close>.
  \<open>fwd\<close>, \<open>bwd\<close> and the visited set \<open>vis\<close> are JavaScript objects used as dictionaries;
  every key they are read or written with contains \<open>|\<close>, so none is a property
  inherited from \<open>Object.prototype\<close>, and \<open>vis[key]\<close> is truthy exactly for the keys stored.
  \<open>vis\<close> is the list of its keys in insertion order.
\<close>

definition field_key :: "field_ref \<Rightarrow> string" where
  "field_key r = nodeId r @ ''|'' @ fieldAlias r"

definition adjacent :: "string list dict \<Rightarrow> string \<Rightarrow> string list" where
  "adjacent m key = (case map_of m key of None \<Rightarrow> [] | Some ks \<Rightarrow> ks)"

definition push_adjacent :: "string \<Rightarrow> string \<Rightarrow> string list dict \<Rightarrow> string list dict" where
  "push_adjacent key k m = AList.update key (adjacent m key @ [k]) m"

definition fwd :: "link list \<Rightarrow> string list dict" where
  "fwd links = fold (\<lambda>l. push_adjacent (field_key (source l)) (field_key (target l))) links []"

definition bwd :: "link list \<Rightarrow> string list dict" where
  "bwd links = fold (\<lambda>l. push_adjacent (field_key (target l)) (field_key (source l))) links []"

text \<open>
  \<open>traverse\<close> calls itself through \<open>forEach\<close>, once more for every key on the path it
  walks, and the engine throws \<open>RangeError\<close> when a call does not fit on its call stack.
  The source does not fix the engine, so the stack is a parameter: \<open>limit\<close> is the number
  of activations of \<open>traverse\<close> that may be nested, and \<open>depth\<close> the number that are
  active. \<open>traverse_each limit depth m ks vis\<close> is \<open>ks.forEach(k => traverse(m, k, vis))\<close>
  running inside activation number \<open>depth\<close>, with the body of \<open>traverse\<close> in place of the
  call: the call for \<open>k\<close> is activation \<open>depth + 1\<close>, refused when \<open>depth\<close> has reached
  \<open>limit\<close>; an exception leaves the loop and every caller.
\<close>

datatype js_error = RangeError

function traverse_each ::
  "nat \<Rightarrow> nat \<Rightarrow> string list dict \<Rightarrow> string list \<Rightarrow> string list \<Rightarrow> js_error + string list" where
  "traverse_each limit depth m [] vis = Inr vis"
| "traverse_each limit depth m (k # ks) vis =
     (if limit \<le> depth then Inl RangeError
      else if k \<in> set vis then traverse_each limit depth m ks vis
      else (case traverse_each limit (Suc depth) m (adjacent m k) (vis @ [k]) of
              Inl err \<Rightarrow> Inl err
            | Inr vis' \<Rightarrow> traverse_each limit depth m ks vis'))"
  by pat_completeness auto
termination
  by (relation "measures [\<lambda>(limit, depth, m, ks, vis). limit - depth,
                          \<lambda>(limit, depth, m, ks, vis). length ks]") auto

text \<open>The call \<open>traverse(map, key, vis)\<close> made by \<open>highlightField\<close>: the first activation.\<close>

definition traverse :: "nat \<Rightarrow> string list dict \<Rightarrow> string \<Rightarrow> string list \<Rightarrow> js_error + string list" where
  "traverse limit m key vis = traverse_each limit 0 m [key] vis"

section \<open>The properties in the words of the specification\<close>

text \<open>The test in the words of the specification: a whole-token occurrence.\<close>

definition whole_token :: "string \<Rightarrow> string \<Rightarrow> bool" where
  "whole_token sField text \<longleftrightarrow>
     (\<exists>pre post. text = pre @ sField @ post \<and>
        (pre = [] \<or> \<not> is_word_char (last pre)) \<and>
        (post = [] \<or> \<not> is_word_char (hd post)))"

text \<open>The links of one edge, every match in iteration order, and the last source matched for a field.\<close>

definition mk_link :: "string \<Rightarrow> string \<Rightarrow> string \<Rightarrow> string \<Rightarrow> link" where
  "mk_link src tgt tField sField =
     \<lparr>source = \<lparr>nodeId = src, fieldAlias = sField\<rparr>,
      target = \<lparr>nodeId = tgt, fieldAlias = tField\<rparr>\<rparr>"

definition field_links :: "string \<Rightarrow> string list \<Rightarrow> string \<Rightarrow> string \<times> field_meta \<Rightarrow> link list" where
  "field_links src sFields tgt tf =
     map (mk_link src tgt (fst tf)) (filter (\<lambda>sField. re_search sField (formula (snd tf))) sFields)"

definition edge_links :: "node_out dict \<Rightarrow> edge_in \<Rightarrow> link list" where
  "edge_links nodes edge =
     (case map_of nodes (ei_source edge) of
        None \<Rightarrow> []
      | Some sn \<Rightarrow>
          (case map_of nodes (ei_target edge) of
             None \<Rightarrow> []
           | Some tn \<Rightarrow>
               concat (map (field_links (ei_source edge) (map fst (output_of sn)) (ei_target edge))
                           (output_of tn))))"

definition last_source :: "link list \<Rightarrow> string \<Rightarrow> string \<Rightarrow> field_ref option" where
  "last_source links n f =
     (let hits = filter (\<lambda>l. target l = \<lparr>nodeId = n, fieldAlias = f\<rparr>) links
      in if hits = [] then None else Some (source (last hits)))"

text \<open>The edges of an adjacency index, and the key pairs of the links.\<close>

definition edges_of :: "string list dict \<Rightarrow> (string \<times> string) set" where
  "edges_of m = {(a, b). b \<in> set (adjacent m a)}"

definition link_keys :: "link list \<Rightarrow> (string \<times> string) set" where
  "link_keys links = (\<lambda>l. (field_key (source l), field_key (target l))) ` set links"

section \<open>Example flows\<close>

definition out_field :: "string \<Rightarrow> string option \<Rightarrow> field_in" where
  "out_field a f = \<lparr>fi_alias = a, fi_formula = f, fi_select = False\<rparr>"

definition plain_node :: "string \<Rightarrow> field_in list \<Rightarrow> node_in" where
  "plain_node a outs =
     \<lparr>ni_alias = a, ni_name = None, ni_type = None, ni_output = outs, ni_inoutput = [], ni_fields = []\<rparr>"

definition flow_a :: flow_in where
  "flow_a = \<lparr>fl_nodes = [plain_node ''Node1'' [out_field ''a'' None],
                        plain_node ''Node2'' [out_field ''b'' (Some ''a + 1'')]],
            fl_edges = [\<lparr>ei_source = ''Node1'', ei_target = ''Node2''\<rparr>]\<rparr>"

definition flow_fan_in :: flow_in where
  "flow_fan_in = \<lparr>fl_nodes = [plain_node ''Node1'' [out_field ''a'' None, out_field ''c'' None],
                        plain_node ''Node2'' [out_field ''b'' (Some ''a + c'')]],
            fl_edges = [\<lparr>ei_source = ''Node1'', ei_target = ''Node2''\<rparr>]\<rparr>"

definition flow_unlinked :: flow_in where
  "flow_unlinked = \<lparr>fl_nodes = [plain_node ''Node1'' [out_field ''a'' None],
                        plain_node ''Node2'' [out_field ''b'' (Some ''a + 1'')]],
            fl_edges = []\<rparr>"

definition flow_empty_alias :: flow_in where
  "flow_empty_alias = \<lparr>fl_nodes = [plain_node ''Node1'' [out_field [] None],
                        plain_node ''Node2'' [out_field ''b'' None]],
            fl_edges = [\<lparr>ei_source = ''Node1'', ei_target = ''Node2''\<rparr>]\<rparr>"

definition catalog_a :: "node_out dict" where
  "catalog_a =
     [(''Node1'', \<lparr>name = None, alias_of = ''Node1'', nodeType = None,
                  output_of = [(''a'', \<lparr>formula = [], fsource = None\<rparr>)]\<rparr>),
      (''Node2'', \<lparr>name = None, alias_of = ''Node2'', nodeType = None,
                  output_of = [(''b'', \<lparr>formula = ''a + 1'',
                     fsource = Some \<lparr>nodeId = ''Node1'', fieldAlias = ''a''\<rparr>\<rparr>)]\<rparr>)]"

definition catalog_empty_alias :: "node_out dict" where
  "catalog_empty_alias =
     [(''Node1'', \<lparr>name = None, alias_of = ''Node1'', nodeType = None,
                  output_of = [([], \<lparr>formula = [], fsource = None\<rparr>)]\<rparr>),
      (''Node2'', \<lparr>name = None, alias_of = ''Node2'', nodeType = None,
                  output_of = [(''b'', \<lparr>formula = [],
                     fsource = Some \<lparr>nodeId = ''Node1'', fieldAlias = []\<rparr>\<rparr>)]\<rparr>)]"

definition catalog_fan_in :: "node_out dict" where
  "catalog_fan_in =
     [(''Node1'', \<lparr>name = None, alias_of = ''Node1'', nodeType = None,
                  output_of = [(''a'', \<lparr>formula = [], fsource = None\<rparr>),
                               (''c'', \<lparr>formula = [], fsource = None\<rparr>)]\<rparr>),
      (''Node2'', \<lparr>name = None, alias_of = ''Node2'', nodeType = None,
                  output_of = [(''b'', \<lparr>formula = ''a + c'',
                     fsource = Some \<lparr>nodeId = ''Node1'', fieldAlias = ''c''\<rparr>\<rparr>)]\<rparr>)]"

definition flow_cycle :: flow_in where
  "flow_cycle =
     \<lparr>fl_nodes = [plain_node ''A'' [out_field ''x'' (Some ''z'')],
                  plain_node ''B'' [out_field ''y'' (Some ''x'')],
                  plain_node ''C'' [out_field ''z'' (Some ''y'')]],
      fl_edges = [\<lparr>ei_source = ''A'', ei_target = ''B''\<rparr>,
                  \<lparr>ei_source = ''B'', ei_target = ''C''\<rparr>,
                  \<lparr>ei_source = ''C'', ei_target = ''A''\<rparr>]\<rparr>"

definition catalog_cycle :: "node_out dict" where
  "catalog_cycle =
     [(''A'', \<lparr>name = None, alias_of = ''A'', nodeType = None,
              output_of = [(''x'', \<lparr>formula = ''z'',
                 fsource = Some \<lparr>nodeId = ''C'', fieldAlias = ''z''\<rparr>\<rparr>)]\<rparr>),
      (''B'', \<lparr>name = None, alias_of = ''B'', nodeType = None,
              output_of = [(''y'', \<lparr>formula = ''x'',
                 fsource = Some \<lparr>nodeId = ''A'', fieldAlias = ''x''\<rparr>\<rparr>)]\<rparr>),
      (''C'', \<lparr>name = None, alias_of = ''C'', nodeType = None,
              output_of = [(''z'', \<lparr>formula = ''y'',
                 fsource = Some \<lparr>nodeId = ''B'', fieldAlias = ''y''\<rparr>\<rparr>)]\<rparr>)]"

definition flow_dangling :: flow_in where
  "flow_dangling =
     \<lparr>fl_nodes = [plain_node ''Node1'' [out_field ''a'' None],
                  \<lparr>ni_alias = ''Node2'', ni_name = None, ni_type = Some ''exception'',
                   ni_output = [out_field ''b'' (Some ''a + 1'')], ni_inoutput = [], ni_fields = []\<rparr>],
      fl_edges = [\<lparr>ei_source = ''Node1'', ei_target = ''Node2''\<rparr>]\<rparr>"

text \<open>A chain of \<open>n\<close> links through \<open>n + 1\<close> nodes, each with the one field \<open>f\<close>.\<close>

definition chain_node :: "nat \<Rightarrow> string" where
  "chain_node i = replicate (Suc i) CHR ''n''"

definition chain_links :: "nat \<Rightarrow> link list" where
  "chain_links n = map (\<lambda>i. mk_link (chain_node i) (chain_node (Suc i)) ''f'' ''f'') [0..<n]"

definition chain_key :: "nat \<Rightarrow> string" where
  "chain_key i = field_key \<lparr>nodeId = chain_node i, fieldAlias = ''f''\<rparr>"

section \<open>Properties of the match test\<close>

lemma literal_at_Some: "literal_at p t = Some rest \<longleftrightarrow> t = p @ rest"
  by (induction p t rule: literal_at.induct) auto

lemma literal_at_append: "literal_at s (s @ post) = Some post"
  by (simp add: literal_at_Some)

lemma match_here_iff:
  "match_here prev s t \<longleftrightarrow>
     lookbehind_ok prev \<and> (\<exists>post. t = s @ post \<and> lookahead_ok post)"
  by (auto simp: match_here_def literal_at_Some literal_at_append split: option.splits)

lemma lookahead_ok_iff: "lookahead_ok post \<longleftrightarrow> post = [] \<or> \<not> is_word_char (hd post)"
  by (cases post) auto

lemma search_from_iff:
  "search_from prev s t \<longleftrightarrow>
     (\<exists>pre post. t = pre @ s @ post \<and>
        (if pre = [] then lookbehind_ok prev else \<not> is_word_char (last pre)) \<and>
        lookahead_ok post)"
proof (induction t arbitrary: prev)
  case Nil
  then show ?case by (auto simp: match_here_iff)
next
  case (Cons c cs)
  show ?case
  proof
    assume "search_from prev s (c # cs)"
    then consider "match_here prev s (c # cs)" | "search_from (Some c) s cs"
      by auto
    then show "\<exists>pre post. c # cs = pre @ s @ post \<and>
        (if pre = [] then lookbehind_ok prev else \<not> is_word_char (last pre)) \<and>
        lookahead_ok post"
    proof cases
      case 1
      then obtain post where "c # cs = s @ post" "lookahead_ok post" "lookbehind_ok prev"
        by (auto simp: match_here_iff)
      then have "c # cs = [] @ s @ post \<and>
        (if [] = ([]::string) then lookbehind_ok prev else \<not> is_word_char (last [])) \<and>
        lookahead_ok post" by simp
      then show ?thesis by blast
    next
      case 2
      then obtain pre post where p: "cs = pre @ s @ post"
        "if pre = [] then lookbehind_ok (Some c) else \<not> is_word_char (last pre)"
        "lookahead_ok post"
        using Cons.IH by blast
      have "c # cs = (c # pre) @ s @ post" using p(1) by simp
      moreover have "\<not> is_word_char (last (c # pre))" using p(2) by (auto split: if_splits)
      ultimately show ?thesis using p(3) by (metis list.distinct(1))
    qed
  next
    assume "\<exists>pre post. c # cs = pre @ s @ post \<and>
        (if pre = [] then lookbehind_ok prev else \<not> is_word_char (last pre)) \<and>
        lookahead_ok post"
    then obtain pre post where p: "c # cs = pre @ s @ post"
        "if pre = [] then lookbehind_ok prev else \<not> is_word_char (last pre)"
        "lookahead_ok post" by blast
    show "search_from prev s (c # cs)"
    proof (cases pre)
      case Nil
      then have "match_here prev s (c # cs)"
        using p by (auto simp: match_here_iff)
      then show ?thesis by simp
    next
      case (Cons d pre')
      then have cs: "c = d" "cs = pre' @ s @ post" using p(1) by auto
      have "if pre' = [] then lookbehind_ok (Some c) else \<not> is_word_char (last pre')"
        using p(2) Cons cs(1) by (auto split: if_splits)
      then have "search_from (Some c) s cs"
        using Cons.IH[of "Some c"] cs(2) p(3) by blast
      then show ?thesis by simp
    qed
  qed
qed

lemma re_search_whole_token: "re_search s text \<longleftrightarrow> whole_token s text"
  unfolding re_search_def whole_token_def search_from_iff lookahead_ok_iff
  by (metis lookbehind_ok.simps(1))

text \<open>
  Claim C2. The match test of \<open>readFlow\<close> is a case-sensitive whole-token match of the
  literal alias: it succeeds exactly when the formula contains the alias with no letter,
  digit or underscore right before or right after the occurrence. The alias \<open>x\<close> is not
  found in \<open>max\<close> or \<open>x1\<close> and is found in \<open>x\<close>, \<open>x+1\<close> and \<open>(x)\<close>; upper case is
  a different letter, and a dot in the alias stands for a dot only.
\<close>

theorem lineage_match_whole_token:
  "(re_search sField t \<longleftrightarrow> whole_token sField t) \<and>
   \<not> re_search ''x'' ''max'' \<and> \<not> re_search ''x'' ''x1'' \<and>
   re_search ''x'' ''x'' \<and> re_search ''x'' ''x+1'' \<and> re_search ''x'' ''(x)'' \<and>
   \<not> re_search ''x'' ''X'' \<and> \<not> re_search ''a.c'' ''abc'' \<and> re_search ''a.c'' ''a.c+1''"
proof -
  have "re_search sField t \<longleftrightarrow> whole_token sField t"
    by (rule re_search_whole_token)
  moreover have "\<not> re_search ''x'' ''max'' \<and> \<not> re_search ''x'' ''x1'' \<and>
   re_search ''x'' ''x'' \<and> re_search ''x'' ''x+1'' \<and> re_search ''x'' ''(x)'' \<and>
   \<not> re_search ''x'' ''X'' \<and> \<not> re_search ''a.c'' ''abc'' \<and> re_search ''a.c'' ''a.c+1''"
    by (simp add: re_search_def match_here_def is_word_char_def)
  ultimately show ?thesis by blast
qed

theorem lineage_match_whole_token_witness:
  "whole_token ''x'' ''(x)'' \<and> \<not> whole_token ''x'' ''x1''"
  using lineage_match_whole_token [of "''x''" "''(x)''"]
        lineage_match_whole_token [of "''x''" "''x1''"]
  by (simp add: re_search_def match_here_def is_word_char_def)

section \<open>Properties of readFlow\<close>

text \<open>What the annotation writes leave alone: keys and formulas.\<close>

definition field_shape :: "field_meta dict \<Rightarrow> (string \<times> string) list" where
  "field_shape out = map (\<lambda>p. (fst p, formula (snd p))) out"

definition shape :: "node_out dict \<Rightarrow> (string \<times> (string \<times> string) list) list" where
  "shape nodes = map (\<lambda>p. (fst p, field_shape (output_of (snd p)))) nodes"

lemma field_shape_map_entry:
  "field_shape (AList.map_entry k (\<lambda>m. m\<lparr>fsource := r\<rparr>) out) = field_shape out"
  by (induction out) (auto simp: field_shape_def)

lemma shape_set_source: "shape (set_source ref tgt tField nodes) = shape nodes"
  by (induction nodes) (auto simp: shape_def set_source_def field_shape_map_entry)

lemma map_of_shape:
  "map_of (shape nodes) k = map_option (\<lambda>n. field_shape (output_of n)) (map_of nodes k)"
  by (induction nodes) (auto simp: shape_def)

lemma shape_keys: "map fst (shape nodes) = map fst nodes"
  by (simp add: shape_def comp_def)

lemma field_shape_keys: "map fst (field_shape out) = map fst out"
  by (simp add: field_shape_def comp_def)

lemma match_sources_result:
  "match_sources src sFields tgt tf st = (nodes', links') \<Longrightarrow>
   shape nodes' = shape (fst st) \<and> links' = snd st @ field_links src sFields tgt tf"
proof (induction sFields arbitrary: st)
  case Nil
  then show ?case by (auto simp: match_sources_def field_links_def)
next
  case (Cons s ss)
  let ?st1 = "if re_search s (formula (snd tf)) then record_link src s tgt (fst tf) st else st"
  have step: "match_sources src (s # ss) tgt tf st = match_sources src ss tgt tf ?st1"
    by (simp add: match_sources_def)
  have one: "shape (fst ?st1) = shape (fst st)"
    "snd ?st1 = snd st @ field_links src [s] tgt tf"
    by (auto simp: record_link_def Let_def shape_set_source field_links_def mk_link_def)
  from Cons.IH[of ?st1] Cons.prems step
  have "shape nodes' = shape (fst ?st1) \<and> links' = snd ?st1 @ field_links src ss tgt tf"
    by simp
  with one show ?case by (simp add: field_links_def)
qed


lemma fold_match_sources_result:
  "fold (match_sources src sFields tgt) tfs st = (nodes', links') \<Longrightarrow>
   shape nodes' = shape (fst st) \<and>
   links' = snd st @ concat (map (field_links src sFields tgt) tfs)"
proof (induction tfs arbitrary: st)
  case Nil
  then show ?case by auto
next
  case (Cons tf tfs)
  obtain n1 l1 where st1: "match_sources src sFields tgt tf st = (n1, l1)"
    by (cases "match_sources src sFields tgt tf st")
  from match_sources_result[OF st1]
  have one: "shape n1 = shape (fst st)" "l1 = snd st @ field_links src sFields tgt tf"
    by auto
  from Cons.prems st1 have "fold (match_sources src sFields tgt) tfs (n1, l1) = (nodes', links')"
    by simp
  from Cons.IH[OF this] one show ?case by simp
qed

lemma map_of_Some_key: "map_of al k = Some v \<Longrightarrow> k \<in> fst ` set al"
  by (metis map_of_eq_None_iff option.distinct(1))

lemma process_edge_Inr:
  assumes "process_edge e st = Inr (nodes', links')"
  shows "shape nodes' = shape (fst st) \<and> links' = snd st @ edge_links (fst st) e \<and>
         ei_source e \<in> fst ` set (fst st) \<and> ei_target e \<in> fst ` set (fst st)"
  using assms
  by (auto simp: process_edge_def Let_def edge_links_def
      dest!: fold_match_sources_result dest: map_of_Some_key split: option.splits)

lemma process_edge_Inl:
  assumes "process_edge e st = Inl err"
  shows "(ei_source e \<notin> fst ` set (fst st) \<and> err = KeyError (ei_source e)) \<or>
         (ei_source e \<in> fst ` set (fst st) \<and> ei_target e \<notin> fst ` set (fst st) \<and>
          err = KeyError (ei_target e))"
  using assms
  by (auto simp: process_edge_def Let_def map_of_eq_None_iff dest: map_of_Some_key
      split: option.splits)


lemma field_links_shape:
  "concat (map (field_links src sFields tgt) out) =
   concat (map (\<lambda>p. map (mk_link src tgt (fst p)) (filter (\<lambda>sField. re_search sField (snd p)) sFields))
               (field_shape out))"
  by (induction out) (auto simp: field_links_def field_shape_def)

lemma edge_links_shape:
  assumes "shape nodes' = shape nodes"
  shows "edge_links nodes' e = edge_links nodes e"
proof -
  have m: "map_option (\<lambda>n. field_shape (output_of n)) (map_of nodes' k) =
           map_option (\<lambda>n. field_shape (output_of n)) (map_of nodes k)" for k
    using assms map_of_shape by metis
  show ?thesis
  proof (cases "map_of nodes (ei_source e)")
    case None
    then show ?thesis using m[of "ei_source e"] by (simp add: edge_links_def)
  next
    case sn: (Some sn)
    then obtain sn' where sn': "map_of nodes' (ei_source e) = Some sn'"
      "field_shape (output_of sn') = field_shape (output_of sn)"
      using m[of "ei_source e"] by auto
    then have skeys: "map fst (output_of sn') = map fst (output_of sn)"
      by (metis field_shape_keys)
    show ?thesis
    proof (cases "map_of nodes (ei_target e)")
      case None
      then show ?thesis using m[of "ei_target e"] sn sn' by (simp add: edge_links_def)
    next
      case tn: (Some tn)
      then obtain tn' where tn': "map_of nodes' (ei_target e) = Some tn'"
        "field_shape (output_of tn') = field_shape (output_of tn)"
        using m[of "ei_target e"] by auto
      show ?thesis
        using sn sn'(1) tn tn' skeys by (simp add: edge_links_def field_links_shape)
    qed
  qed
qed

lemma process_edges_Inr:
  "process_edges es st = Inr (nodes', links') \<Longrightarrow>
   shape nodes' = shape (fst st) \<and>
   links' = snd st @ concat (map (edge_links (fst st)) es) \<and>
   (\<forall>e \<in> set es. ei_source e \<in> fst ` set (fst st) \<and> ei_target e \<in> fst ` set (fst st))"
proof (induction es arbitrary: st)
  case Nil
  then show ?case by auto
next
  case (Cons e es)
  from Cons.prems obtain n1 l1 where
    e: "process_edge e st = Inr (n1, l1)" and
    es: "process_edges es (n1, l1) = Inr (nodes', links')"
    by (auto split: sum.splits)
  from process_edge_Inr[OF e]
  have one: "shape n1 = shape (fst st)" "l1 = snd st @ edge_links (fst st) e"
    "ei_source e \<in> fst ` set (fst st)" "ei_target e \<in> fst ` set (fst st)"
    by auto
  have keys: "fst ` set n1 = fst ` set (fst st)"
    using one(1) shape_keys by (metis list.set_map)
  have el: "map (edge_links n1) es = map (edge_links (fst st)) es"
    using edge_links_shape[OF one(1)] by simp
  from Cons.IH[OF es] one keys el show ?case by simp
qed

lemma process_edges_Inl:
  assumes "\<exists>e \<in> set es. ei_source e \<notin> fst ` set (fst st) \<or> ei_target e \<notin> fst ` set (fst st)"
  shows "\<exists>k. process_edges es st = Inl (KeyError k) \<and> k \<notin> fst ` set (fst st) \<and>
             (\<exists>e \<in> set es. k = ei_source e \<or> k = ei_target e)"
  using assms
proof (induction es arbitrary: st)
  case Nil
  then show ?case by simp
next
  case (Cons e es)
  show ?case
  proof (cases "process_edge e st")
    case (Inl err)
    from process_edge_Inl[OF Inl] show ?thesis using Inl by auto
  next
    case (Inr st1)
    obtain n1 l1 where st1: "st1 = (n1, l1)" by (cases st1)
    from process_edge_Inr[OF Inr[unfolded st1]]
    have one: "shape n1 = shape (fst st)"
      "ei_source e \<in> fst ` set (fst st)" "ei_target e \<in> fst ` set (fst st)"
      by auto
    have keys: "fst ` set n1 = fst ` set (fst st)"
      using one(1) shape_keys by (metis list.set_map)
    from Cons.prems one have "\<exists>e \<in> set es. ei_source e \<notin> fst ` set (fst (n1, l1)) \<or>
        ei_target e \<notin> fst ` set (fst (n1, l1))"
      using keys by auto
    from Cons.IH[OF this] show ?thesis using Inr st1 keys by auto
  qed
qed


definition annotated :: "node_out dict \<times> link list \<Rightarrow> bool" where
  "annotated st \<longleftrightarrow>
     (\<forall>n node f m. map_of (fst st) n = Some node \<longrightarrow> map_of (output_of node) f = Some m \<longrightarrow>
        fsource m = last_source (snd st) n f)"

lemma last_source_snoc:
  "last_source (ls @ [l]) n f =
     (if target l = \<lparr>nodeId = n, fieldAlias = f\<rparr> then Some (source l) else last_source ls n f)"
  by (simp add: last_source_def)

lemma annotated_record_link:
  assumes "annotated st"
  shows "annotated (record_link src sField tgt tField st)"
  unfolding annotated_def
proof (intro allI impI)
  fix n node f m
  let ?ref = "\<lparr>nodeId = src, fieldAlias = sField\<rparr>"
  let ?st' = "record_link src sField tgt tField st"
  assume n: "map_of (fst ?st') n = Some node" and f: "map_of (output_of node) f = Some m"
  have links: "snd ?st' = snd st @ [mk_link src tgt tField sField]"
    by (simp add: record_link_def mk_link_def Let_def)
  show "fsource m = last_source (snd ?st') n f"
  proof (cases "n = tgt")
    case False
    then have "map_of (fst st) n = Some node"
      using n by (simp add: record_link_def Let_def set_source_def map_of_map_entry)
    with assms f have "fsource m = last_source (snd st) n f"
      by (auto simp: annotated_def)
    with False show ?thesis by (simp add: links last_source_snoc mk_link_def)
  next
    case True
    then obtain node0 where node0: "map_of (fst st) tgt = Some node0"
      "node = node0\<lparr>output_of := AList.map_entry tField (\<lambda>m. m\<lparr>fsource := Some ?ref\<rparr>) (output_of node0)\<rparr>"
      using n by (auto simp: record_link_def Let_def set_source_def map_of_map_entry split: option.splits)
    show ?thesis
    proof (cases "f = tField")
      case False
      then have "map_of (output_of node0) f = Some m"
        using f node0(2) by (simp add: map_of_map_entry)
      with assms node0(1) have "fsource m = last_source (snd st) tgt f"
        by (auto simp: annotated_def)
      with False True show ?thesis by (simp add: links last_source_snoc mk_link_def)
    next
      case ft: True
      then have "fsource m = Some ?ref"
        using f node0(2) by (auto simp: map_of_map_entry split: option.splits)
      with ft True show ?thesis by (simp add: links last_source_snoc mk_link_def)
    qed
  qed
qed

lemma annotated_match_sources:
  "annotated st \<Longrightarrow> annotated (match_sources src sFields tgt tf st)"
  unfolding match_sources_def
  by (induction sFields arbitrary: st) (auto simp: annotated_record_link)

lemma annotated_fold_match_sources:
  "annotated st \<Longrightarrow> annotated (fold (match_sources src sFields tgt) tfs st)"
  by (induction tfs arbitrary: st) (auto simp: annotated_match_sources)

lemma annotated_process_edge:
  "annotated st \<Longrightarrow> process_edge e st = Inr st' \<Longrightarrow> annotated st'"
  by (auto simp: process_edge_def Let_def annotated_fold_match_sources split: option.splits)

lemma annotated_process_edges:
  "annotated st \<Longrightarrow> process_edges es st = Inr st' \<Longrightarrow> annotated st'"
proof (induction es arbitrary: st)
  case Nil
  then show ?case by simp
next
  case (Cons e es)
  from Cons.prems(2) obtain st1 where
    "process_edge e st = Inr st1" "process_edges es st1 = Inr st'"
    by (auto split: sum.splits)
  with Cons.IH Cons.prems(1) annotated_process_edge show ?case by blast
qed

text \<open>The catalog as built: distinct field keys, no annotation yet.\<close>

definition fresh_fields :: "field_meta dict \<Rightarrow> bool" where
  "fresh_fields out \<longleftrightarrow> distinct (map fst out) \<and> (\<forall>f m. map_of out f = Some m \<longrightarrow> fsource m = None)"

lemma fresh_fields_update:
  "fresh_fields out \<Longrightarrow> fsource m = None \<Longrightarrow> fresh_fields (AList.update k m out)"
  by (auto simp: fresh_fields_def AList.distinct_update AList.update_conv')

lemma fresh_fields_fold:
  assumes "fresh_fields out" "\<And>x o'. fresh_fields o' \<Longrightarrow> fresh_fields (g x o')"
  shows "fresh_fields (fold g xs out)"
  using assms by (induction xs arbitrary: out) auto

lemma fresh_collect_output: "fresh_fields (collect_output node)"
  unfolding collect_output_def Let_def
  by (intro fresh_fields_fold) (auto simp: fresh_fields_update, simp add: fresh_fields_def)

lemma build_nodes_fresh_aux:
  "(\<forall>n node. map_of acc n = Some node \<longrightarrow> fresh_fields (output_of node)) \<Longrightarrow>
   map_of (fold add_node ns acc) n = Some node \<Longrightarrow> fresh_fields (output_of node)"
proof (induction ns arbitrary: acc)
  case Nil
  then show ?case by auto
next
  case (Cons x xs)
  have "\<forall>n node. map_of (add_node x acc) n = Some node \<longrightarrow> fresh_fields (output_of node)"
    using Cons.prems(1)
    by (auto simp: add_node_def AList.update_conv' fresh_collect_output split: if_splits)
  from Cons.IH[OF this] Cons.prems(2) show ?case by simp
qed

lemma build_nodes_fresh:
  "map_of (build_nodes ns) n = Some node \<Longrightarrow> fresh_fields (output_of node)"
  unfolding build_nodes_def by (rule build_nodes_fresh_aux[of "[]"]) auto

lemma annotated_build_nodes: "annotated (build_nodes ns, [])"
  by (auto simp: annotated_def last_source_def fresh_fields_def dest!: build_nodes_fresh)


lemmas readFlow_eval = readFlow_def build_nodes_def add_node_def collect_output_def
  formula_or_empty_def process_edge_def match_sources_def record_link_def set_source_def
  re_search_def match_here_def is_word_char_def out_field_def plain_node_def Let_def

lemma flow_a_result:
  "readFlow flow_a = Inr (catalog_a, [mk_link ''Node1'' ''Node2'' ''b'' ''a''])"
  by (simp add: flow_a_def catalog_a_def readFlow_eval mk_link_def)

lemma flow_empty_alias_result:
  "readFlow flow_empty_alias =
     Inr (catalog_empty_alias, [mk_link ''Node1'' ''Node2'' ''b'' []])"
  by (simp add: flow_empty_alias_def catalog_empty_alias_def readFlow_eval mk_link_def)

lemma flow_fan_in_result:
  "readFlow flow_fan_in =
     Inr (catalog_fan_in,
          [mk_link ''Node1'' ''Node2'' ''b'' ''a'', mk_link ''Node1'' ''Node2'' ''b'' ''c''])"
  by (simp add: flow_fan_in_def catalog_fan_in_def readFlow_eval mk_link_def)

lemma edge_links_member:
  "l \<in> set (edge_links nodes e) \<longleftrightarrow>
     (\<exists>sn tn tField tMeta sField.
        map_of nodes (ei_source e) = Some sn \<and> map_of nodes (ei_target e) = Some tn \<and>
        (tField, tMeta) \<in> set (output_of tn) \<and> sField \<in> fst ` set (output_of sn) \<and>
        re_search sField (formula tMeta) \<and>
        l = mk_link (ei_source e) (ei_target e) tField sField)"
  by (auto simp: edge_links_def field_links_def split: option.splits) force+

lemma readFlow_Inr:
  assumes "readFlow file = Inr (nodes, links)"
  shows "shape nodes = shape (build_nodes (fl_nodes file))"
    and "links = concat (map (edge_links nodes) (fl_edges file))"
    and "annotated (nodes, links)"
proof -
  let ?st = "(build_nodes (fl_nodes file), [])"
  have run: "process_edges (fl_edges file) ?st = Inr (nodes, links)"
    using assms by (simp add: readFlow_def)
  from process_edges_Inr[OF run]
  have sh: "shape nodes = shape (build_nodes (fl_nodes file))"
    and ls: "links = concat (map (edge_links (build_nodes (fl_nodes file))) (fl_edges file))"
    by auto
  show "shape nodes = shape (build_nodes (fl_nodes file))" by (rule sh)
  show "links = concat (map (edge_links nodes) (fl_edges file))"
  proof -
    have "edge_links nodes = edge_links (build_nodes (fl_nodes file))"
      using edge_links_shape[OF sh] by (intro ext)
    then show ?thesis using ls by simp
  qed
  show "annotated (nodes, links)"
    using annotated_process_edges[OF annotated_build_nodes run] .
qed

lemma readFlow_distinct_fields:
  assumes "readFlow file = Inr (nodes, links)" "map_of nodes n = Some node"
  shows "distinct (map fst (output_of node))"
proof -
  have "map_option (\<lambda>n. field_shape (output_of n)) (map_of nodes n) =
        map_option (\<lambda>n. field_shape (output_of n)) (map_of (build_nodes (fl_nodes file)) n)"
    using readFlow_Inr(1)[OF assms(1)] map_of_shape by metis
  with assms(2) obtain node0 where node0: "map_of (build_nodes (fl_nodes file)) n = Some node0"
    "field_shape (output_of node0) = field_shape (output_of node)"
    by (cases "map_of (build_nodes (fl_nodes file)) n") auto
  have "distinct (map fst (output_of node0))"
    using build_nodes_fresh[OF node0(1)] by (simp add: fresh_fields_def)
  then show ?thesis using node0(2) by (metis field_shape_keys)
qed

lemma re_search_empty: "re_search s [] \<longleftrightarrow> s = []"
  by (cases s) (auto simp: re_search_def match_here_def)

lemma link_origin:
  assumes "readFlow file = Inr (nodes, links)" "l \<in> set links"
  shows "\<exists>e \<in> set (fl_edges file). \<exists>sn tn tMeta.
           ei_source e = nodeId (source l) \<and> ei_target e = nodeId (target l) \<and>
           map_of nodes (nodeId (source l)) = Some sn \<and>
           map_of nodes (nodeId (target l)) = Some tn \<and>
           fieldAlias (source l) \<in> fst ` set (output_of sn) \<and>
           map_of (output_of tn) (fieldAlias (target l)) = Some tMeta \<and>
           re_search (fieldAlias (source l)) (formula tMeta)"
proof -
  from assms readFlow_Inr(2)[OF assms(1)]
  obtain e where e: "e \<in> set (fl_edges file)" "l \<in> set (edge_links nodes e)"
    by auto
  from e(2) obtain sn tn tField tMeta sField where x:
    "map_of nodes (ei_source e) = Some sn" "map_of nodes (ei_target e) = Some tn"
    "(tField, tMeta) \<in> set (output_of tn)" "sField \<in> fst ` set (output_of sn)"
    "re_search sField (formula tMeta)"
    "l = mk_link (ei_source e) (ei_target e) tField sField"
    unfolding edge_links_member by blast
  have "distinct (map fst (output_of tn))"
    using readFlow_distinct_fields[OF assms(1) x(2)] .
  then have "map_of (output_of tn) tField = Some tMeta"
    using x(3) by simp
  with x e(1) show ?thesis
    by (auto simp: mk_link_def intro!: bexI[of _ e])
qed

text \<open>
  Claim C3. When \<open>readFlow\<close> returns, the link list is, edge by edge and target field by
  target field, the list of all source fields of the edge's source node (in the order
  of its field mapping) whose alias matches the target field's formula: every match is
  a link. The annotation of a field is the source of the last link of the list that
  points at the field: only the last match evaluated is kept. In \<open>flow_fan_in\<close> the
  fields \<open>a\<close> and \<open>c\<close> both match the formula of \<open>b\<close>: the link from \<open>a\<close> is emitted while
  the annotation of \<open>b\<close> names \<open>c\<close>.
\<close>

theorem every_match_linked_last_annotated:
  "(readFlow file = Inr (nodes, links) \<longrightarrow>
      links = concat (map (edge_links nodes) (fl_edges file)) \<and>
      (\<forall>n node f m. map_of nodes n = Some node \<longrightarrow> map_of (output_of node) f = Some m \<longrightarrow>
          fsource m = last_source links n f)) \<and>
   (\<exists>nodes' links' tn m.
      readFlow flow_fan_in = Inr (nodes', links') \<and>
      mk_link ''Node1'' ''Node2'' ''b'' ''a'' \<in> set links' \<and>
      map_of nodes' ''Node2'' = Some tn \<and> map_of (output_of tn) ''b'' = Some m \<and>
      fsource m = Some \<lparr>nodeId = ''Node1'', fieldAlias = ''c''\<rparr>)"
proof (intro conjI impI)
  assume rf: "readFlow file = Inr (nodes, links)"
  show "links = concat (map (edge_links nodes) (fl_edges file))"
    by (rule readFlow_Inr(2)[OF rf])
  show "\<forall>n node f m. map_of nodes n = Some node \<longrightarrow> map_of (output_of node) f = Some m \<longrightarrow>
          fsource m = last_source links n f"
    using readFlow_Inr(3)[OF rf] by (simp add: annotated_def)
next
  show "\<exists>nodes' links' tn m.
      readFlow flow_fan_in = Inr (nodes', links') \<and>
      mk_link ''Node1'' ''Node2'' ''b'' ''a'' \<in> set links' \<and>
      map_of nodes' ''Node2'' = Some tn \<and> map_of (output_of tn) ''b'' = Some m \<and>
      fsource m = Some \<lparr>nodeId = ''Node1'', fieldAlias = ''c''\<rparr>"
    unfolding flow_fan_in_result by (simp add: catalog_fan_in_def)
qed

theorem every_match_linked_last_annotated_witness:
  "readFlow flow_fan_in =
     Inr (catalog_fan_in,
          [mk_link ''Node1'' ''Node2'' ''b'' ''a'', mk_link ''Node1'' ''Node2'' ''b'' ''c'']) \<and>
   [mk_link ''Node1'' ''Node2'' ''b'' ''a'', mk_link ''Node1'' ''Node2'' ''b'' ''c''] =
     concat (map (edge_links catalog_fan_in) (fl_edges flow_fan_in)) \<and>
   last_source [mk_link ''Node1'' ''Node2'' ''b'' ''a'', mk_link ''Node1'' ''Node2'' ''b'' ''c'']
     ''Node2'' ''b'' = Some \<lparr>nodeId = ''Node1'', fieldAlias = ''c''\<rparr>"
proof -
  let ?links = "[mk_link ''Node1'' ''Node2'' ''b'' ''a'', mk_link ''Node1'' ''Node2'' ''b'' ''c'']"
  let ?n2 = "\<lparr>name = None, alias_of = ''Node2'', nodeType = None,
              output_of = [(''b'', \<lparr>formula = ''a + c'',
                 fsource = Some \<lparr>nodeId = ''Node1'', fieldAlias = ''c''\<rparr>\<rparr>)]\<rparr>"
  let ?m = "\<lparr>formula = ''a + c'', fsource = Some \<lparr>nodeId = ''Node1'', fieldAlias = ''c''\<rparr>\<rparr>"
  have r: "readFlow flow_fan_in = Inr (catalog_fan_in, ?links)"
    by (rule flow_fan_in_result)
  from every_match_linked_last_annotated [of flow_fan_in catalog_fan_in ?links] r
  have a: "?links = concat (map (edge_links catalog_fan_in) (fl_edges flow_fan_in))"
    and b: "\<forall>n node f m. map_of catalog_fan_in n = Some node \<longrightarrow>
              map_of (output_of node) f = Some m \<longrightarrow> fsource m = last_source ?links n f"
    by blast+
  have "map_of catalog_fan_in ''Node2'' = Some ?n2" "map_of (output_of ?n2) ''b'' = Some ?m"
    by (simp_all add: catalog_fan_in_def)
  with b have "fsource ?m = last_source ?links ''Node2'' ''b''" by blast
  then have "last_source ?links ''Node2'' ''b'' = Some \<lparr>nodeId = ''Node1'', fieldAlias = ''c''\<rparr>"
    by simp
  with r a show ?thesis by blast
qed

text \<open>
  Claim C4. Every link that \<open>readFlow\<close> emits runs along a declared edge: some edge of
  the input has the link's source node as its source and the link's target node as its
  target. With no edge nothing is linked, whatever the formulas say: \<open>flow_unlinked\<close> has
  the nodes of \<open>flow_a\<close>, whose formula matches, and no edge, and its link list is empty.
\<close>

theorem links_only_along_edges:
  "(readFlow file = Inr (nodes, links) \<longrightarrow>
      (\<forall>l \<in> set links. \<exists>e \<in> set (fl_edges file).
          ei_source e = nodeId (source l) \<and> ei_target e = nodeId (target l))) \<and>
   (\<exists>nodes'. readFlow flow_unlinked = Inr (nodes', [])) \<and>
   re_search ''a'' (formula_or_empty (out_field ''b'' (Some ''a + 1'')))"
proof (intro conjI impI ballI)
  fix l assume "readFlow file = Inr (nodes, links)" "l \<in> set links"
  from link_origin[OF this]
  show "\<exists>e \<in> set (fl_edges file). ei_source e = nodeId (source l) \<and> ei_target e = nodeId (target l)"
    by blast
next
  show "\<exists>nodes'. readFlow flow_unlinked = Inr (nodes', [])"
    by (simp add: flow_unlinked_def readFlow_def)
next
  show "re_search ''a'' (formula_or_empty (out_field ''b'' (Some ''a + 1'')))"
    by (simp add: readFlow_eval)
qed

theorem links_only_along_edges_witness:
  "readFlow flow_a = Inr (catalog_a, [mk_link ''Node1'' ''Node2'' ''b'' ''a'']) \<and>
   (\<exists>e \<in> set (fl_edges flow_a). ei_source e = ''Node1'' \<and> ei_target e = ''Node2'')"
  using links_only_along_edges [of flow_a catalog_a "[mk_link ''Node1'' ''Node2'' ''b'' ''a'']"]
  by (simp add: flow_a_result mk_link_def)

text \<open>
  Claim C8, as amended. A field with an empty formula can be the source of a link (field
  \<open>a\<close> of \<open>flow_a\<close> is), and it is the target of a link only when the alias of the
  link's source field is the empty string.
\<close>

theorem empty_formula_target:
  "(readFlow file = Inr (nodes, links) \<longrightarrow>
      (\<forall>l \<in> set links. \<forall>tn m.
          map_of nodes (nodeId (target l)) = Some tn \<longrightarrow>
          map_of (output_of tn) (fieldAlias (target l)) = Some m \<longrightarrow>
          formula m = [] \<longrightarrow> fieldAlias (source l) = [])) \<and>
   (\<exists>nodes' links' l sn m.
      readFlow flow_a = Inr (nodes', links') \<and> l \<in> set links' \<and>
      map_of nodes' (nodeId (source l)) = Some sn \<and>
      map_of (output_of sn) (fieldAlias (source l)) = Some m \<and> formula m = [])"
proof (intro conjI impI ballI allI)
  fix l tn m
  assume rf: "readFlow file = Inr (nodes, links)" and l: "l \<in> set links"
    and tn: "map_of nodes (nodeId (target l)) = Some tn"
    and m: "map_of (output_of tn) (fieldAlias (target l)) = Some m"
    and e: "formula m = []"
  from link_origin[OF rf l] tn m
  have "re_search (fieldAlias (source l)) (formula m)" by auto
  with e show "fieldAlias (source l) = []" by (simp add: re_search_empty)
next
  show "\<exists>nodes' links' l sn m.
      readFlow flow_a = Inr (nodes', links') \<and> l \<in> set links' \<and>
      map_of nodes' (nodeId (source l)) = Some sn \<and>
      map_of (output_of sn) (fieldAlias (source l)) = Some m \<and> formula m = []"
    unfolding flow_a_result by (simp add: mk_link_def catalog_a_def)
qed

theorem empty_formula_target_witness:
  "readFlow flow_empty_alias =
     Inr (catalog_empty_alias, [mk_link ''Node1'' ''Node2'' ''b'' []]) \<and>
   map_of catalog_empty_alias ''Node2'' =
     Some \<lparr>name = None, alias_of = ''Node2'', nodeType = None,
           output_of = [(''b'', \<lparr>formula = [],
              fsource = Some \<lparr>nodeId = ''Node1'', fieldAlias = []\<rparr>\<rparr>)]\<rparr> \<and>
   fieldAlias (source (mk_link ''Node1'' ''Node2'' ''b'' [])) = []"
proof -
  let ?l = "mk_link ''Node1'' ''Node2'' ''b'' []"
  let ?m = "\<lparr>formula = [], fsource = Some \<lparr>nodeId = ''Node1'', fieldAlias = []\<rparr>\<rparr>"
  let ?n2 = "\<lparr>name = None, alias_of = ''Node2'', nodeType = None, output_of = [(''b'', ?m)]\<rparr>"
  have r: "readFlow flow_empty_alias = Inr (catalog_empty_alias, [?l])"
    by (rule flow_empty_alias_result)
  have n2: "map_of catalog_empty_alias (nodeId (target ?l)) = Some ?n2"
    and m: "map_of (output_of ?n2) (fieldAlias (target ?l)) = Some ?m"
    by (simp_all add: catalog_empty_alias_def mk_link_def)
  from empty_formula_target [of flow_empty_alias catalog_empty_alias "[?l]"] r
  have "\<forall>l \<in> set [?l]. \<forall>tn m.
          map_of catalog_empty_alias (nodeId (target l)) = Some tn \<longrightarrow>
          map_of (output_of tn) (fieldAlias (target l)) = Some m \<longrightarrow>
          formula m = [] \<longrightarrow> fieldAlias (source l) = []"
    by blast
  then have "map_of catalog_empty_alias (nodeId (target ?l)) = Some ?n2 \<longrightarrow>
          map_of (output_of ?n2) (fieldAlias (target ?l)) = Some ?m \<longrightarrow>
          formula ?m = [] \<longrightarrow> fieldAlias (source ?l) = []"
    by simp
  with n2 m have "fieldAlias (source ?l) = []" by simp
  with r n2 show ?thesis by (simp add: mk_link_def)
qed

text \<open>
  Claim C8 as stated fails: the empty alias matches the empty formula (the pattern is
  then the two lookarounds alone, which hold at position 0 of the empty text), so field
  \<open>b\<close> of \<open>flow_empty_alias\<close>, whose formula is empty, is the target of a link.
\<close>

theorem empty_formula_target_counterexample:
  "readFlow flow_empty_alias =
     Inr ([(''Node1'', \<lparr>name = None, alias_of = ''Node1'', nodeType = None,
                        output_of = [([], \<lparr>formula = [], fsource = None\<rparr>)]\<rparr>),
           (''Node2'', \<lparr>name = None, alias_of = ''Node2'', nodeType = None,
                        output_of = [(''b'', \<lparr>formula = [],
                                              fsource = Some \<lparr>nodeId = ''Node1'', fieldAlias = []\<rparr>\<rparr>)]\<rparr>)],
          [\<lparr>source = \<lparr>nodeId = ''Node1'', fieldAlias = []\<rparr>,
            target = \<lparr>nodeId = ''Node2'', fieldAlias = ''b''\<rparr>\<rparr>])"
  by (simp add: flow_empty_alias_def readFlow_eval)

text \<open>
  Claim C10. Every link that \<open>readFlow\<close> emits is well formed for the catalog returned
  with it: the node ids of its source and of its target are keys of the catalog, and
  its two field aliases are fields of those nodes.
\<close>

theorem links_well_formed:
  "readFlow file = Inr (nodes, links) \<Longrightarrow> l \<in> set links \<Longrightarrow>
   \<exists>sn tn. map_of nodes (nodeId (source l)) = Some sn \<and>
           map_of nodes (nodeId (target l)) = Some tn \<and>
           fieldAlias (source l) \<in> fst ` set (output_of sn) \<and>
           fieldAlias (target l) \<in> fst ` set (output_of tn)"
proof -
  assume "readFlow file = Inr (nodes, links)" "l \<in> set links"
  from link_origin[OF this] obtain sn tn tMeta where
    "map_of nodes (nodeId (source l)) = Some sn"
    "map_of nodes (nodeId (target l)) = Some tn"
    "fieldAlias (source l) \<in> fst ` set (output_of sn)"
    "map_of (output_of tn) (fieldAlias (target l)) = Some tMeta"
    by blast
  then show ?thesis by (auto dest: map_of_Some_key)
qed

theorem links_well_formed_witness:
  "readFlow flow_a = Inr (catalog_a, [mk_link ''Node1'' ''Node2'' ''b'' ''a'']) \<and>
   (\<exists>sn tn. map_of catalog_a ''Node1'' = Some sn \<and> map_of catalog_a ''Node2'' = Some tn \<and>
      ''a'' \<in> fst ` set (output_of sn) \<and> ''b'' \<in> fst ` set (output_of tn))"
  using links_well_formed [of flow_a catalog_a "[mk_link ''Node1'' ''Node2'' ''b'' ''a'']"
      "mk_link ''Node1'' ''Node2'' ''b'' ''a''"]
  by (simp add: flow_a_result mk_link_def)

section \<open>Properties of compute_levels\<close>

subsection \<open>The counters and the tables before the loop\<close>

definition in_count :: "(string \<times> string) list \<Rightarrow> string \<Rightarrow> nat" where
  "in_count E n = length (filter (\<lambda>e. snd e = n) E)"

lemma fold_add_link_children:
  "children_of (fst (fold add_link ls st)) n =
     children_of (fst st) n @ map snd (filter (\<lambda>e. fst e = n) (node_edges ls))"
proof (induction ls arbitrary: st)
  case Nil
  then show ?case by (simp add: node_edges_def)
next
  case (Cons l ls)
  have "children_of (fst (add_link l st)) n =
          children_of (fst st) n @ map snd (filter (\<lambda>e. fst e = n) (node_edges [l]))"
    by (simp add: add_link_def Let_def children_of_def AList.update_conv' node_edges_def)
  with Cons.IH[of "add_link l st"] show ?case
    by (simp add: node_edges_def)
qed

lemma fold_add_link_indegree:
  "map_of (snd (fold add_link ls st)) n =
     (if in_count (node_edges ls) n = 0 then map_of (snd st) n
      else Some ((case map_of (snd st) n of None \<Rightarrow> 0 | Some d \<Rightarrow> d) + int (in_count (node_edges ls) n)))"
proof (induction ls arbitrary: st)
  case Nil
  then show ?case by (simp add: node_edges_def in_count_def)
next
  case (Cons l ls)
  have one: "map_of (snd (add_link l st)) n =
          (if nodeId (target l) = n
           then Some ((case map_of (snd st) n of None \<Rightarrow> 0 | Some d \<Rightarrow> d) + 1)
           else map_of (snd st) n)"
    by (simp add: add_link_def Let_def AList.update_conv')
  have cnt: "in_count (node_edges (l # ls)) n =
          (if nodeId (target l) = n then 1 else 0) + in_count (node_edges ls) n"
    by (simp add: in_count_def node_edges_def)
  show ?case
    unfolding fold_Cons comp_def Cons.IH[of "add_link l st"] one cnt
    by (auto split: option.splits)
qed

lemma fold_update_const:
  "map_of (fold (\<lambda>k. AList.update k v) ks al) n = (if n \<in> set ks then Some v else map_of al n)"
  by (induction ks arbitrary: al) (auto simp: AList.update_conv')

lemma fold_update_distinct:
  "distinct (map fst al) \<Longrightarrow> distinct (map fst (fold (\<lambda>k. AList.update k v) ks al))"
  by (induction ks arbitrary: al) (auto simp: AList.distinct_update)

lemma fold_add_link_distinct:
  "distinct (map fst (snd st)) \<Longrightarrow> distinct (map fst (snd (fold add_link ls st)))"
  by (induction ls arbitrary: st) (auto simp: add_link_def Let_def AList.distinct_update)

lemma count_links_children:
  "children_of (fst (count_links nodes links)) n =
     map snd (filter (\<lambda>e. fst e = n) (node_edges links))"
proof -
  have "children_of (fst ([], fold (\<lambda>nid. AList.update nid 0) nodes [])) n = []"
    by (simp add: children_of_def)
  then show ?thesis
    unfolding count_links_def fold_add_link_children by simp
qed

lemma count_links_indegree:
  "map_of (snd (count_links nodes links)) n =
     (if n \<in> set nodes \<or> n \<in> snd ` set (node_edges links)
      then Some (int (in_count (node_edges links) n)) else None)"
proof -
  have "in_count (node_edges links) n = 0 \<longleftrightarrow> n \<notin> snd ` set (node_edges links)"
    by (auto simp: in_count_def filter_empty_conv)
  then show ?thesis
    by (auto simp: count_links_def fold_add_link_indegree fold_update_const)
qed

lemma count_links_distinct: "distinct (map fst (snd (count_links nodes links)))"
  by (simp add: count_links_def fold_add_link_distinct fold_update_distinct)

lemma initial_queue_set:
  "set (initial_queue indegree) \<supseteq> {n. map_of indegree n = Some 0}"
  "distinct (map fst indegree) \<Longrightarrow> set (initial_queue indegree) = {n. map_of indegree n = Some 0}"
  "distinct (map fst indegree) \<Longrightarrow> distinct (initial_queue indegree)"
proof -
  show "set (initial_queue indegree) \<supseteq> {n. map_of indegree n = Some 0}"
    by (auto simp: initial_queue_def dest!: map_of_SomeD intro!: image_eqI[where f=fst])
  assume d: "distinct (map fst indegree)"
  then show "set (initial_queue indegree) = {n. map_of indegree n = Some 0}"
    by (auto simp: initial_queue_def image_iff)
  show "distinct (initial_queue indegree)"
    using d by (simp add: initial_queue_def distinct_map_filter)
qed

lemma initial_levels_lookup:
  "map_of (initial_levels nodes queue) n =
     (if n \<in> set queue then Some (Some 0) else if n \<in> set nodes then Some None else None)"
  by (simp add: initial_levels_def fold_update_const)

subsection \<open>The invariant of the queue loop\<close>

text \<open>
  A node is done when its in-degree is 0 and it has left the queue. The in-degree of a
  node counts its in-links from sources that are not done, plus, inside the loop over
  the children of the node \<open>cur\<close> just popped, the children still to be visited. Every
  node with in-degree 0 has a level, and every link out of a done node points strictly
  forward, but for the links from \<open>cur\<close> to children still to be visited.
\<close>

definition done_set :: "level_state \<Rightarrow> string set" where
  "done_set st = {n. map_of (fst st) n = Some 0 \<and> n \<notin> set (snd (snd st))}"

definition pending :: "(string \<times> string) list \<Rightarrow> string set \<Rightarrow> string \<Rightarrow> nat" where
  "pending E S n = length (filter (\<lambda>e. snd e = n \<and> fst e \<notin> S) E)"

definition forward :: "(string \<rightharpoonup> int option) \<Rightarrow> string \<times> string \<Rightarrow> bool" where
  "forward L e \<longleftrightarrow> (\<exists>a b. L (fst e) = Some (Some a) \<and> L (snd e) = Some (Some b) \<and> a < b)"

definition kahn_inv ::
  "(string \<times> string) list \<Rightarrow> string \<Rightarrow> string list \<Rightarrow> level_state \<Rightarrow> bool" where
  "kahn_inv E cur extra st \<longleftrightarrow>
     (let D = map_of (fst st); L = map_of (fst (snd st)); Q = snd (snd st); S = done_set st in
      distinct Q \<and> (\<forall>q \<in> set Q. D q = Some 0) \<and>
      (\<forall>n d. D n = Some d \<longrightarrow> d = int (pending E S n) + int (count_list extra n)) \<and>
      (\<forall>e \<in> set E. snd e \<in> dom D \<and> snd e \<in> dom L) \<and>
      (\<forall>c \<in> set extra. c \<in> dom D \<and> c \<in> dom L) \<and>
      (\<forall>n. D n = Some 0 \<longrightarrow> (\<exists>k. L n = Some (Some k))) \<and>
      (\<forall>n k. L n = Some (Some k) \<longrightarrow> 0 \<le> k) \<and>
      (\<forall>e \<in> set E. fst e \<in> S \<longrightarrow> (fst e = cur \<longrightarrow> snd e \<notin> set extra) \<longrightarrow> forward L e))"

lemma visit_child_step:
  assumes "map_of indegree c = Some d" "map_of levels nid = Some (Some ln)"
    "map_of levels c = Some lc"
  shows "\<exists>levels' new.
           visit_child nid c (indegree, levels, queue) =
             Inr (AList.update c (d - 1) indegree, levels',
                  if d - 1 = 0 then queue @ [c] else queue) \<and>
           map_of levels' = (map_of levels)(c \<mapsto> Some new) \<and>
           ln + 1 \<le> new \<and> (\<forall>old. lc = Some old \<longrightarrow> old \<le> new) \<and>
           (new = ln + 1 \<or> lc = Some new)"
proof (cases lc)
  case None
  with assms show ?thesis
    by (auto simp: AList.update_conv')
next
  case (Some old)
  show ?thesis
  proof (cases "ln + 1 > old")
    case True
    with assms Some show ?thesis
      by (auto simp: AList.update_conv')
  next
    case False
    have "map_of levels = (map_of levels)(c \<mapsto> Some old)"
      using assms(3) Some by (auto simp: fun_upd_idem)
    with assms Some False show ?thesis
      by auto
  qed
qed


lemma kahn_invI:
  assumes "distinct (snd (snd st))"
    "\<forall>q \<in> set (snd (snd st)). map_of (fst st) q = Some 0"
    "\<forall>n d. map_of (fst st) n = Some d \<longrightarrow>
        d = int (pending E (done_set st) n) + int (count_list extra n)"
    "\<forall>e \<in> set E. snd e \<in> dom (map_of (fst st)) \<and> snd e \<in> dom (map_of (fst (snd st)))"
    "\<forall>c \<in> set extra. c \<in> dom (map_of (fst st)) \<and> c \<in> dom (map_of (fst (snd st)))"
    "\<forall>n. map_of (fst st) n = Some 0 \<longrightarrow> (\<exists>k. map_of (fst (snd st)) n = Some (Some k))"
    "\<forall>n k. map_of (fst (snd st)) n = Some (Some k) \<longrightarrow> 0 \<le> k"
    "\<forall>e \<in> set E. fst e \<in> done_set st \<longrightarrow> (fst e = cur \<longrightarrow> snd e \<notin> set extra) \<longrightarrow>
        forward (map_of (fst (snd st))) e"
  shows "kahn_inv E cur extra st"
  using assms unfolding kahn_inv_def Let_def by blast

lemma kahn_invD:
  assumes "kahn_inv E cur extra st"
  shows "distinct (snd (snd st))"
    "\<forall>q \<in> set (snd (snd st)). map_of (fst st) q = Some 0"
    "\<forall>n d. map_of (fst st) n = Some d \<longrightarrow>
        d = int (pending E (done_set st) n) + int (count_list extra n)"
    "\<forall>e \<in> set E. snd e \<in> dom (map_of (fst st)) \<and> snd e \<in> dom (map_of (fst (snd st)))"
    "\<forall>c \<in> set extra. c \<in> dom (map_of (fst st)) \<and> c \<in> dom (map_of (fst (snd st)))"
    "\<forall>n. map_of (fst st) n = Some 0 \<longrightarrow> (\<exists>k. map_of (fst (snd st)) n = Some (Some k))"
    "\<forall>n k. map_of (fst (snd st)) n = Some (Some k) \<longrightarrow> 0 \<le> k"
    "\<forall>e \<in> set E. fst e \<in> done_set st \<longrightarrow> (fst e = cur \<longrightarrow> snd e \<notin> set extra) \<longrightarrow>
        forward (map_of (fst (snd st))) e"
  using assms unfolding kahn_inv_def Let_def by blast+

lemma visit_child_inv:
  assumes inv: "kahn_inv E cur (c # rest) st" and cur: "cur \<in> done_set st"
  shows "\<exists>st'. visit_child cur c st = Inr st' \<and> kahn_inv E cur rest st' \<and>
               done_set st' = done_set st"
proof -
  obtain indegree levels queue where st: "st = (indegree, levels, queue)"
    by (cases st)
  define D where "D = map_of indegree"
  define L where "L = map_of levels"
  define S where "S = done_set st"
  note I = kahn_invD[OF inv, unfolded st fst_conv snd_conv, folded D_def L_def, folded st, folded S_def]
  from I(5) obtain d lc where d: "D c = Some d" and lc: "L c = Some lc"
    by auto
  from I(3) d have dval: "d = int (pending E S c) + int (count_list (c # rest) c)"
    by blast
  then have dpos: "1 \<le> d" by simp
  from cur have cur0: "D cur = Some 0" and curq: "cur \<notin> set queue"
    by (auto simp: done_set_def st D_def)
  with I(6) obtain ln where ln: "L cur = Some (Some ln)" by blast
  from I(7) ln have ln0: "0 \<le> ln" by blast
  have cur_c: "cur \<noteq> c" using cur0 d dpos by auto
  have cq: "c \<notin> set queue" using I(2) d dpos by auto
  have cS: "c \<notin> S" using d dpos by (auto simp: S_def done_set_def st D_def)
  from visit_child_step[OF d[unfolded D_def] ln[unfolded L_def] lc[unfolded L_def], of queue]
  obtain levels' new where
    run: "visit_child cur c (indegree, levels, queue) =
            Inr (AList.update c (d - 1) indegree, levels',
                 if d - 1 = 0 then queue @ [c] else queue)"
    and L': "map_of levels' = L(c \<mapsto> Some new)"
    and new: "ln + 1 \<le> new" "\<forall>old. lc = Some old \<longrightarrow> old \<le> new"
    unfolding L_def by blast
  define st' where "st' = (AList.update c (d - 1) indegree, levels',
                 if d - 1 = 0 then queue @ [c] else queue)"
  have D': "map_of (fst st') = D(c \<mapsto> d - 1)"
    by (simp add: st'_def D_def AList.update_conv')
  have L'': "map_of (fst (snd st')) = L(c \<mapsto> Some new)"
    by (simp add: st'_def L')
  have Q': "snd (snd st') = (if d - 1 = 0 then queue @ [c] else queue)"
    by (simp add: st'_def)
  have S': "done_set st' = S"
  proof (rule set_eqI)
    fix n
    show "n \<in> done_set st' \<longleftrightarrow> n \<in> S"
    proof (cases "n = c")
      case True
      have "c \<notin> done_set st'"
        unfolding done_set_def D' Q' by auto
      with cS True show ?thesis by simp
    next
      case False
      then show ?thesis
        unfolding done_set_def D' Q' S_def st by (auto simp: D_def)
    qed
  qed
  have i1: "distinct (snd (snd st'))"
    unfolding Q' using I(1) cq by (simp add: st)
  have i2: "\<forall>q \<in> set (snd (snd st')). map_of (fst st') q = Some 0"
    unfolding Q' D' using I(2) cq by (auto simp: st)
  have i3: "\<forall>n d'. map_of (fst st') n = Some d' \<longrightarrow>
        d' = int (pending E (done_set st') n) + int (count_list rest n)"
  proof (intro allI impI)
    fix n d' assume a: "map_of (fst st') n = Some d'"
    show "d' = int (pending E (done_set st') n) + int (count_list rest n)"
    proof (cases "n = c")
      case True
      with a have "d' = d - 1" by (simp add: D')
      with dval True show ?thesis by (simp add: S')
    next
      case False
      with a have "D n = Some d'" by (simp add: D')
      with I(3) have "d' = int (pending E S n) + int (count_list (c # rest) n)" by blast
      with False show ?thesis by (simp add: S')
    qed
  qed
  have domD: "dom (map_of (fst st')) = dom D"
    unfolding D' using d by auto
  have domL: "dom (map_of (fst (snd st'))) = dom L"
    unfolding L'' using lc by auto
  have i4: "\<forall>e \<in> set E. snd e \<in> dom (map_of (fst st')) \<and> snd e \<in> dom (map_of (fst (snd st')))"
    unfolding domD domL using I(4) by blast
  have i5: "\<forall>c' \<in> set rest. c' \<in> dom (map_of (fst st')) \<and> c' \<in> dom (map_of (fst (snd st')))"
    unfolding domD domL using I(5) by simp
  have i6: "\<forall>n. map_of (fst st') n = Some 0 \<longrightarrow> (\<exists>k. map_of (fst (snd st')) n = Some (Some k))"
    unfolding D' L'' using I(6) by auto
  have i7: "\<forall>n k. map_of (fst (snd st')) n = Some (Some k) \<longrightarrow> 0 \<le> k"
    unfolding L'' using I(7) new(1) ln0 by auto
  have i8: "\<forall>e \<in> set E. fst e \<in> done_set st' \<longrightarrow> (fst e = cur \<longrightarrow> snd e \<notin> set rest) \<longrightarrow>
        forward (map_of (fst (snd st'))) e"
  proof (intro ballI impI)
    fix e assume e: "e \<in> set E" and eS: "fst e \<in> done_set st'"
      and ecur: "fst e = cur \<longrightarrow> snd e \<notin> set rest"
    from eS have eS: "fst e \<in> S" by (simp add: S')
    with cS have src: "fst e \<noteq> c" by auto
    show "forward (map_of (fst (snd st'))) e"
    proof (cases "snd e = c")
      case False
      with ecur have "fst e = cur \<longrightarrow> snd e \<notin> set (c # rest)" by simp
      with I(8) e eS have "forward L e" by blast
      with False src show ?thesis unfolding L'' forward_def by simp
    next
      case tc: True
      show ?thesis
      proof (cases "fst e = cur")
        case True
        with tc ln new(1) cur_c show ?thesis
          unfolding L'' forward_def by simp
      next
        case False
        with I(8) e eS have "forward L e" by blast
        then obtain a b where "L (fst e) = Some (Some a)" "L c = Some (Some b)" "a < b"
          unfolding forward_def tc by blast
        with lc new(2) src tc show ?thesis
          unfolding L'' forward_def by auto
      qed
    qed
  qed
  have "kahn_inv E cur rest st'"
    by (rule kahn_invI[OF i1 i2 i3 i4 i5 i6 i7 i8])
  with run S' show ?thesis
    unfolding st st'_def S_def by blast
qed

lemma visit_children_inv:
  "kahn_inv E cur cs st \<Longrightarrow> cur \<in> done_set st \<Longrightarrow>
   \<exists>st'. visit_children cur cs st = Inr st' \<and> kahn_inv E cur [] st' \<and>
         done_set st' = done_set st"
proof (induction cs arbitrary: st)
  case Nil
  then show ?case by simp
next
  case (Cons c cs)
  from visit_child_inv[OF Cons.prems] obtain st1 where
    one: "visit_child cur c st = Inr st1" "kahn_inv E cur cs st1" "done_set st1 = done_set st"
    by blast
  from Cons.IH[OF one(2)] Cons.prems(2) one(3) obtain st' where
    "visit_children cur cs st1 = Inr st'" "kahn_inv E cur [] st'" "done_set st' = done_set st1"
    by auto
  with one show ?case by simp
qed

lemma filter_length_split:
  assumes "\<forall>x \<in> set xs. P x \<longleftrightarrow> (P1 x \<or> P2 x)" "\<forall>x \<in> set xs. \<not> (P1 x \<and> P2 x)"
  shows "length (filter P xs) = length (filter P1 xs) + length (filter P2 xs)"
  using assms by (induction xs) auto

lemma count_list_filter: "count_list xs n = length (filter (\<lambda>x. x = n) xs)"
  by (induction xs) auto

lemma count_children:
  "count_list (map snd (filter (\<lambda>e. fst e = cur) E)) n =
   length (filter (\<lambda>e. snd e = n \<and> fst e = cur) E)"
  by (induction E) auto

lemma kahn_inv_pop:
  assumes inv: "kahn_inv E x [] (indegree, levels, cur # queue)"
  shows "kahn_inv E cur (map snd (filter (\<lambda>e. fst e = cur) E)) (indegree, levels, queue) \<and>
         cur \<in> done_set (indegree, levels, queue)"
proof -
  let ?st = "(indegree, levels, cur # queue)" and ?st' = "(indegree, levels, queue)"
  let ?cs = "map snd (filter (\<lambda>e. fst e = cur) E)"
  note I = kahn_invD[OF inv, unfolded fst_conv snd_conv]
  have cur0: "map_of indegree cur = Some 0" and curq: "cur \<notin> set queue"
    using I(1,2) by auto
  have S: "done_set ?st' = insert cur (done_set ?st)"
    using cur0 curq by (auto simp: done_set_def)
  have curS: "cur \<notin> done_set ?st" by (simp add: done_set_def)
  have i1: "distinct (snd (snd ?st'))" using I(1) by simp
  have i2: "\<forall>q \<in> set (snd (snd ?st')). map_of (fst ?st') q = Some 0"
    using I(2) by simp
  have i3: "\<forall>n d. map_of (fst ?st') n = Some d \<longrightarrow>
        d = int (pending E (done_set ?st') n) + int (count_list ?cs n)"
  proof (intro allI impI)
    fix n d assume "map_of (fst ?st') n = Some d"
    with I(3) have d: "d = int (pending E (done_set ?st) n)" by simp
    have "pending E (done_set ?st) n = pending E (done_set ?st') n + count_list ?cs n"
      unfolding pending_def count_children S
      by (rule filter_length_split) (use curS in auto)
    with d show "d = int (pending E (done_set ?st') n) + int (count_list ?cs n)" by simp
  qed
  have i4: "\<forall>e \<in> set E. snd e \<in> dom (map_of (fst ?st')) \<and> snd e \<in> dom (map_of (fst (snd ?st')))"
    using I(4) by simp
  have i5: "\<forall>c \<in> set ?cs. c \<in> dom (map_of (fst ?st')) \<and> c \<in> dom (map_of (fst (snd ?st')))"
    using I(4) by auto
  have i6: "\<forall>n. map_of (fst ?st') n = Some 0 \<longrightarrow> (\<exists>k. map_of (fst (snd ?st')) n = Some (Some k))"
    using I(6) by simp
  have i7: "\<forall>n k. map_of (fst (snd ?st')) n = Some (Some k) \<longrightarrow> 0 \<le> k"
    using I(7) by simp
  have i8: "\<forall>e \<in> set E. fst e \<in> done_set ?st' \<longrightarrow> (fst e = cur \<longrightarrow> snd e \<notin> set ?cs) \<longrightarrow>
        forward (map_of (fst (snd ?st'))) e"
  proof (intro ballI impI)
    fix e assume e: "e \<in> set E" and eS: "fst e \<in> done_set ?st'"
      and ecur: "fst e = cur \<longrightarrow> snd e \<notin> set ?cs"
    have "fst e \<noteq> cur"
    proof
      assume c: "fst e = cur"
      with e have "snd e \<in> set ?cs" by force
      with ecur c show False by simp
    qed
    with eS S have "fst e \<in> done_set ?st" by simp
    with I(8) e show "forward (map_of (fst (snd ?st'))) e" by simp
  qed
  have "kahn_inv E cur ?cs ?st'"
    by (rule kahn_invI[OF i1 i2 i3 i4 i5 i6 i7 i8])
  moreover have "cur \<in> done_set ?st'" using S by simp
  ultimately show ?thesis by simp
qed

lemma kahn_inv_cur: "kahn_inv E cur [] st \<Longrightarrow> kahn_inv E x [] st"
  unfolding kahn_inv_def Let_def by simp

lemma process_queue_inv:
  "\<forall>n. children_of children n = map snd (filter (\<lambda>e. fst e = n) E) \<Longrightarrow>
   kahn_inv E x [] st \<Longrightarrow>
   \<exists>indegree' levels'. process_queue children st = Inr (indegree', levels', []) \<and>
      kahn_inv E x [] (indegree', levels', [])"
proof (induction children st rule: process_queue.induct)
  case (1 children indegree levels)
  then show ?case by simp
next
  case (2 children indegree levels nid queue)
  from kahn_inv_pop[OF "2.prems"(2)]
  have a: "kahn_inv E nid (children_of children nid) (indegree, levels, queue)"
    and b: "nid \<in> done_set (indegree, levels, queue)"
    by (simp_all add: "2.prems"(1))
  from visit_children_inv[OF a b] obtain st' where
    st': "visit_children nid (children_of children nid) (indegree, levels, queue) = Inr st'"
    "kahn_inv E nid [] st'"
    by blast
  from "2.IH"[OF st'(1) "2.prems"(1) kahn_inv_cur[OF st'(2)]] st'(1)
  show ?case by simp
qed

lemma visit_child_dom:
  "visit_child nid c st = Inr st' \<Longrightarrow> dom (map_of (fst st')) = dom (map_of (fst st))"
proof -
  assume run: "visit_child nid c st = Inr st'"
  obtain indegree levels queue where st: "st = (indegree, levels, queue)"
    by (cases st)
  from run obtain d where "map_of indegree c = Some d" "fst st' = AList.update c (d - 1) indegree"
    unfolding st by (auto split: option.splits)
  then show ?thesis
    unfolding st by (auto simp: AList.update_conv')
qed

lemma visit_children_dom:
  "visit_children nid cs st = Inr st' \<Longrightarrow> dom (map_of (fst st')) = dom (map_of (fst st))"
proof (induction cs arbitrary: st)
  case Nil
  then show ?case by simp
next
  case (Cons c cs)
  from Cons.prems obtain st1 where "visit_child nid c st = Inr st1"
    "visit_children nid cs st1 = Inr st'"
    by (auto split: sum.splits)
  with Cons.IH visit_child_dom show ?case by metis
qed

lemma process_queue_dom:
  "process_queue children st = Inr st' \<Longrightarrow> dom (map_of (fst st')) = dom (map_of (fst st))"
proof (induction children st rule: process_queue.induct)
  case (1 children indegree levels)
  then show ?case by simp
next
  case (2 children indegree levels nid queue)
  from "2.prems" obtain st1 where
    st1: "visit_children nid (children_of children nid) (indegree, levels, queue) = Inr st1"
    "process_queue children st1 = Inr st'"
    by (auto split: sum.splits)
  from "2.IH"[OF st1] visit_children_dom[OF st1(1)] show ?case by simp
qed

lemma kahn_inv_init:
  assumes tg: "\<forall>e \<in> set (node_edges links). snd e \<in> set nodes"
  shows "kahn_inv (node_edges links) x []
           (snd (count_links nodes links),
            initial_levels nodes (initial_queue (snd (count_links nodes links))),
            initial_queue (snd (count_links nodes links)))"
proof -
  let ?E = "node_edges links"
  let ?D = "snd (count_links nodes links)"
  let ?Q = "initial_queue ?D"
  let ?L = "initial_levels nodes ?Q"
  let ?st = "(?D, ?L, ?Q)"
  have Q: "set ?Q = {n. map_of ?D n = Some 0}" "distinct ?Q"
    using initial_queue_set(2,3)[OF count_links_distinct] by auto
  have S: "done_set ?st = {}"
    using Q(1) by (auto simp: done_set_def)
  have pend: "pending ?E {} n = in_count ?E n" for n
    by (simp add: pending_def in_count_def)
  have i1: "distinct (snd (snd ?st))" using Q(2) by simp
  have i2: "\<forall>q \<in> set (snd (snd ?st)). map_of (fst ?st) q = Some 0"
    using Q(1) by simp
  have i3: "\<forall>n d. map_of (fst ?st) n = Some d \<longrightarrow>
        d = int (pending ?E (done_set ?st) n) + int (count_list [] n)"
    unfolding S pend by (auto simp: count_links_indegree split: if_splits)
  have i4: "\<forall>e \<in> set ?E. snd e \<in> dom (map_of (fst ?st)) \<and> snd e \<in> dom (map_of (fst (snd ?st)))"
    using tg by (auto simp: count_links_indegree initial_levels_lookup)
  have i5: "\<forall>c \<in> set []. c \<in> dom (map_of (fst ?st)) \<and> c \<in> dom (map_of (fst (snd ?st)))"
    by simp
  have i6: "\<forall>n. map_of (fst ?st) n = Some 0 \<longrightarrow> (\<exists>k. map_of (fst (snd ?st)) n = Some (Some k))"
    using Q(1) by (auto simp: initial_levels_lookup)
  have i7: "\<forall>n k. map_of (fst (snd ?st)) n = Some (Some k) \<longrightarrow> 0 \<le> k"
    by (auto simp: initial_levels_lookup split: if_splits)
  have i8: "\<forall>e \<in> set ?E. fst e \<in> done_set ?st \<longrightarrow> (fst e = x \<longrightarrow> snd e \<notin> set []) \<longrightarrow>
        forward (map_of (fst (snd ?st))) e"
    unfolding S by simp
  show ?thesis
    by (rule kahn_invI[OF i1 i2 i3 i4 i5 i6 i7 i8])
qed

lemma all_done:
  assumes inv: "kahn_inv E x [] (indegree, levels, [])"
    and ac: "acyclic (set E)"
    and src: "\<forall>e \<in> set E. fst e \<in> dom (map_of indegree)"
    and n: "n \<in> dom (map_of indegree)"
  shows "map_of indegree n = Some 0"
proof (rule ccontr)
  assume not0: "map_of indegree n \<noteq> Some 0"
  let ?D = "map_of indegree"
  let ?U = "{m \<in> dom ?D. ?D m \<noteq> Some 0}"
  note I = kahn_invD[OF inv, unfolded fst_conv snd_conv]
  have S: "done_set (indegree, levels, []) = {m. ?D m = Some 0}"
    by (simp add: done_set_def)
  have "wf (set E)" using ac by (simp add: finite_acyclic_wf)
  moreover have "n \<in> ?U" using n not0 by simp
  ultimately obtain z where z: "z \<in> ?U" and zmin: "\<And>y. (y, z) \<in> set E \<Longrightarrow> y \<notin> ?U"
    by (rule wfE_min) blast
  from z obtain d where d: "?D z = Some d" "d \<noteq> 0" by auto
  have "filter (\<lambda>e. snd e = z \<and> fst e \<notin> {m. ?D m = Some 0}) E = []"
  proof (rule filter_False, intro ballI)
    fix e assume e: "e \<in> set E"
    show "\<not> (snd e = z \<and> fst e \<notin> {m. ?D m = Some 0})"
    proof
      assume a: "snd e = z \<and> fst e \<notin> {m. ?D m = Some 0}"
      with e have "(fst e, z) \<in> set E" by (metis prod.collapse)
      from zmin[OF this] src e a show False by auto
    qed
  qed
  then have "pending E (done_set (indegree, levels, [])) z = 0"
    unfolding S pending_def by simp
  with I(3) d(1) have "d = 0" by fastforce
  with d(2) show False by simp
qed

lemma assign_levels_run:
  assumes tg: "\<forall>l \<in> set links. nodeId (target l) \<in> set nodes"
  shows "\<exists>indegree' levels'.
           assign_levels nodes links = Inr levels' \<and>
           kahn_inv (node_edges links) x [] (indegree', levels', []) \<and>
           dom (map_of indegree') = set nodes"
proof -
  let ?E = "node_edges links"
  let ?c = "count_links nodes links"
  let ?Q = "initial_queue (snd ?c)"
  let ?st = "(snd ?c, initial_levels nodes ?Q, ?Q)"
  have tg': "\<forall>e \<in> set ?E. snd e \<in> set nodes"
    using tg by (auto simp: node_edges_def)
  have ch: "\<forall>n. children_of (fst ?c) n = map snd (filter (\<lambda>e. fst e = n) ?E)"
    by (simp add: count_links_children)
  from process_queue_inv[OF ch kahn_inv_init[OF tg', of x]]
  obtain indegree' levels' where
    run: "process_queue (fst ?c) ?st = Inr (indegree', levels', [])"
    and inv: "kahn_inv ?E x [] (indegree', levels', [])"
    by blast
  have "dom (map_of indegree') = dom (map_of (snd ?c))"
    using process_queue_dom[OF run] by simp
  also have "\<dots> = set nodes"
    using tg' by (auto simp: count_links_indegree split: if_splits)
  finally have "dom (map_of indegree') = set nodes" .
  moreover have "assign_levels nodes links = Inr levels'"
    using run by (simp add: assign_levels_def Let_def)
  ultimately show ?thesis using inv by blast
qed

lemma levels_forward:
  assumes ac: "acyclic (set (node_edges links))"
    and ends: "\<forall>l \<in> set links. nodeId (source l) \<in> set nodes \<and> nodeId (target l) \<in> set nodes"
  shows "\<exists>levels. assign_levels nodes links = Inr levels \<and>
           (\<forall>n \<in> set nodes. \<exists>k. map_of levels n = Some (Some k)) \<and>
           (\<forall>l \<in> set links. \<exists>a b.
               map_of levels (nodeId (source l)) = Some (Some a) \<and>
               map_of levels (nodeId (target l)) = Some (Some b) \<and> a < b)"
proof -
  let ?E = "node_edges links"
  from ends have tg: "\<forall>l \<in> set links. nodeId (target l) \<in> set nodes" by blast
  from assign_levels_run[OF tg, of undefined] obtain indegree levels where
    run: "assign_levels nodes links = Inr levels"
    and inv: "kahn_inv ?E undefined [] (indegree, levels, [])"
    and dom: "dom (map_of indegree) = set nodes"
    by blast
  note I = kahn_invD[OF inv, unfolded fst_conv snd_conv]
  have src: "\<forall>e \<in> set ?E. fst e \<in> dom (map_of indegree)"
    unfolding dom using ends by (auto simp: node_edges_def)
  have zero: "map_of indegree n = Some 0" if "n \<in> set nodes" for n
    using all_done[OF inv ac src] that dom by blast
  have S: "done_set (indegree, levels, []) = set nodes"
    using zero dom by (auto simp: done_set_def)
  have a: "\<forall>n \<in> set nodes. \<exists>k. map_of levels n = Some (Some k)"
    using zero I(6) by blast
  have b: "\<forall>l \<in> set links. \<exists>a b.
               map_of levels (nodeId (source l)) = Some (Some a) \<and>
               map_of levels (nodeId (target l)) = Some (Some b) \<and> a < b"
  proof
    fix l assume l: "l \<in> set links"
    then have e: "(nodeId (source l), nodeId (target l)) \<in> set ?E"
      by (auto simp: node_edges_def)
    moreover have "fst (nodeId (source l), nodeId (target l)) \<in> done_set (indegree, levels, [])"
      unfolding S using ends l by simp
    ultimately have "forward (map_of levels) (nodeId (source l), nodeId (target l))"
      using I(8) by fastforce
    then show "\<exists>a b. map_of levels (nodeId (source l)) = Some (Some a) \<and>
               map_of levels (nodeId (target l)) = Some (Some b) \<and> a < b"
      by (simp add: forward_def)
  qed
  from run a b show ?thesis by blast
qed

text \<open>A level changes only for a child that is visited, and never below zero.\<close>

lemma visit_child_other:
  assumes "visit_child nid c st = Inr st'" "n \<noteq> c"
  shows "map_of (fst (snd st')) n = map_of (fst (snd st)) n"
  using assms
  by (cases st) (auto simp: AList.update_conv' split: option.splits if_splits)

lemma visit_children_other:
  "visit_children nid cs st = Inr st' \<Longrightarrow> n \<notin> set cs \<Longrightarrow>
   map_of (fst (snd st')) n = map_of (fst (snd st)) n"
proof (induction cs arbitrary: st)
  case Nil
  then show ?case by simp
next
  case (Cons c cs)
  from Cons.prems(1) obtain st1 where s: "visit_child nid c st = Inr st1"
    "visit_children nid cs st1 = Inr st'"
    by (auto split: sum.splits)
  from Cons.IH[OF s(2)] visit_child_other[OF s(1), of n] Cons.prems(2)
  show ?case by simp
qed

lemma process_queue_other:
  "process_queue children st = Inr st' \<Longrightarrow> \<forall>nid. n \<notin> set (children_of children nid) \<Longrightarrow>
   map_of (fst (snd st')) n = map_of (fst (snd st)) n"
proof (induction children st rule: process_queue.induct)
  case (1 children indegree levels)
  then show ?case by simp
next
  case (2 children indegree levels nid queue)
  from "2.prems"(1) obtain st1 where
    st1: "visit_children nid (children_of children nid) (indegree, levels, queue) = Inr st1"
    "process_queue children st1 = Inr st'"
    by (auto split: sum.splits)
  from "2.IH"[OF st1 "2.prems"(2)] visit_children_other[OF st1(1), of n] "2.prems"(2)
  show ?case by simp
qed

lemma root_level_zero:
  assumes n: "n \<in> set nodes" and noin: "\<forall>l \<in> set links. nodeId (target l) \<noteq> n"
    and run: "assign_levels nodes links = Inr levels"
  shows "map_of levels n = Some (Some 0)"
proof -
  let ?c = "count_links nodes links"
  let ?Q = "initial_queue (snd ?c)"
  let ?st = "(snd ?c, initial_levels nodes ?Q, ?Q)"
  from run obtain st' where st': "process_queue (fst ?c) ?st = Inr st'" "levels = fst (snd st')"
    by (auto simp: assign_levels_def Let_def split: sum.splits)
  have notgt: "n \<notin> snd ` set (node_edges links)"
    using noin by (auto simp: node_edges_def)
  then have "in_count (node_edges links) n = 0"
    by (auto simp: in_count_def filter_empty_conv)
  with n have "map_of (snd ?c) n = Some 0"
    by (simp add: count_links_indegree)
  with initial_queue_set(1)[of "snd ?c"] have "n \<in> set ?Q" by blast
  then have init: "map_of (initial_levels nodes ?Q) n = Some (Some 0)"
    by (simp add: initial_levels_lookup)
  have "\<forall>nid. n \<notin> set (children_of (fst ?c) nid)"
    using notgt by (auto simp: count_links_children)
  from process_queue_other[OF st'(1) this] init st'(2)
  show ?thesis by simp
qed

subsection \<open>Grouping and sorting\<close>

lemma group_of_fold:
  "group_of (fold add_to_group ls acc) lvl =
     group_of acc lvl @ map fst (filter (\<lambda>p. snd p = lvl) ls)"
proof (induction ls arbitrary: acc)
  case Nil
  then show ?case by simp
next
  case (Cons p ls)
  have "group_of (add_to_group p acc) lvl =
          group_of acc lvl @ map fst (filter (\<lambda>q. snd q = lvl) [p])"
    by (simp add: add_to_group_def group_of_def AList.update_conv')
  with Cons.IH[of "add_to_group p acc"] show ?case by simp
qed

lemma group_keys_fold:
  "fst ` set (fold add_to_group ls acc) = fst ` set acc \<union> snd ` set ls"
proof (induction ls arbitrary: acc)
  case Nil
  then show ?case by simp
next
  case (Cons p ls)
  have "fst ` set (add_to_group p acc) = insert (snd p) (fst ` set acc)"
    by (simp add: add_to_group_def AList.dom_update)
  with Cons.IH[of "add_to_group p acc"] show ?case by auto
qed

lemma group_all_None:
  "\<forall>p \<in> set ls. snd p = None \<Longrightarrow>
   fold add_to_group ls [(None, g)] = [(None, g @ map fst ls)]"
proof (induction ls arbitrary: g)
  case Nil
  then show ?case by simp
next
  case (Cons p ls)
  then have "add_to_group p [(None, g)] = [(None, g @ [fst p])]"
    by (simp add: add_to_group_def group_of_def)
  with Cons show ?case by simp
qed

lemma group_levels_all_None:
  assumes "\<forall>p \<in> set ls. snd p = None" "ls \<noteq> []"
  shows "group_levels ls = Inr [map fst ls]"
proof -
  obtain p ps where ls: "ls = p # ps" using assms(2) by (cases ls) auto
  have "add_to_group p [] = [(None, [fst p])]"
    using assms(1) ls by (simp add: add_to_group_def group_of_def)
  then have "fold add_to_group ls [] = [(None, map fst ls)]"
    using group_all_None[of ps "[fst p]"] assms(1) ls by simp
  then show ?thesis
    by (simp add: group_levels_def py_sorted_def group_of_def)
qed

lemma update_absent: "k \<notin> fst ` set al \<Longrightarrow> AList.update k v al = al @ [(k, v)]"
  by (induction al) auto

lemma fold_update_fresh:
  "distinct ks \<Longrightarrow> set ks \<inter> fst ` set al = {} \<Longrightarrow>
   fold (\<lambda>k. AList.update k v) ks al = al @ map (\<lambda>k. (k, v)) ks"
proof (induction ks arbitrary: al)
  case Nil
  then show ?case by simp
next
  case (Cons k ks)
  then have "AList.update k v al = al @ [(k, v)]"
    by (intro update_absent) auto
  moreover have "set ks \<inter> fst ` set (al @ [(k, v)]) = {}"
    using Cons.prems by auto
  ultimately show ?case using Cons by simp
qed

lemma no_roots_levels:
  assumes d: "distinct nodes"
    and inb: "\<forall>n \<in> set nodes. \<exists>l \<in> set links. nodeId (target l) = n"
  shows "assign_levels nodes links = Inr (map (\<lambda>n. (n, None)) nodes)"
proof -
  let ?c = "count_links nodes links"
  let ?E = "node_edges links"
  have pos: "d \<noteq> 0" if "(k, d) \<in> set (snd ?c)" for k d
  proof -
    from that have m: "map_of (snd ?c) k = Some d"
      using count_links_distinct by simp
    then have k: "k \<in> set nodes \<or> k \<in> snd ` set ?E"
      by (auto simp: count_links_indegree split: if_splits)
    have "k \<in> snd ` set ?E"
    proof (cases "k \<in> set nodes")
      case True
      with inb obtain l where "l \<in> set links" "nodeId (target l) = k" by blast
      then show ?thesis by (force simp: node_edges_def)
    next
      case False
      with k show ?thesis by simp
    qed
    then have "in_count ?E k \<noteq> 0"
      by (auto simp: in_count_def filter_empty_conv)
    with m k show ?thesis by (auto simp: count_links_indegree)
  qed
  then have q: "initial_queue (snd ?c) = []"
    by (auto simp: initial_queue_def filter_empty_conv)
  have "initial_levels nodes [] = map (\<lambda>n. (n, None)) nodes"
    using fold_update_fresh[OF d, of "[]" None] by (simp add: initial_levels_def)
  then show ?thesis
    by (simp add: assign_levels_def Let_def q)
qed

lemma no_roots_one_group:
  assumes d: "distinct (map fst nodes)" and ne: "nodes \<noteq> []"
    and inb: "\<forall>n \<in> fst ` set nodes. \<exists>l \<in> set links. nodeId (target l) = n"
  shows "compute_levels nodes links = Inr [map fst nodes]"
proof -
  have "assign_levels (map fst nodes) links = Inr (map (\<lambda>n. (n, None)) (map fst nodes))"
    using no_roots_levels[OF d] inb by simp
  moreover have "group_levels (map (\<lambda>n. (n, None :: int option)) (map fst nodes)) =
      Inr [map fst (map (\<lambda>n. (n, None :: int option)) (map fst nodes))]"
    using ne by (intro group_levels_all_None) auto
  ultimately show ?thesis
    by (simp add: compute_levels_def comp_def)
qed

text \<open>The level table keeps its keys, and its levels are never negative.\<close>

definition table_ok :: "string set \<Rightarrow> int option dict \<Rightarrow> bool" where
  "table_ok N levels \<longleftrightarrow>
     distinct (map fst levels) \<and> fst ` set levels \<subseteq> N \<and>
     (\<forall>n k. map_of levels n = Some (Some k) \<longrightarrow> 0 \<le> k)"

lemma table_ok_update:
  assumes "table_ok N levels" "c \<in> N" "0 \<le> k"
  shows "table_ok N (AList.update c (Some k) levels)"
  using assms
  by (auto simp: table_ok_def AList.distinct_update AList.dom_update AList.update_conv')

lemma visit_child_table:
  assumes "visit_child nid c st = Inr st'" "table_ok N (fst (snd st))"
  shows "table_ok N (fst (snd st'))"
proof -
  obtain indegree levels queue where st: "st = (indegree, levels, queue)"
    by (cases st)
  from assms(1) obtain ln lc where ln: "map_of levels nid = Some (Some ln)"
    and lc: "map_of levels c = Some lc"
    and l': "fst (snd st') = levels \<or> fst (snd st') = AList.update c (Some (ln + 1)) levels"
    unfolding st by (auto split: option.splits if_splits)
  from assms(2) ln have "0 \<le> ln" by (auto simp: table_ok_def st)
  moreover have "c \<in> N"
    using assms(2) lc map_of_SomeD[OF lc] by (auto simp: table_ok_def st intro: rev_image_eqI)
  ultimately have "table_ok N (AList.update c (Some (ln + 1)) levels)"
    using assms(2) by (intro table_ok_update) (auto simp: st)
  with l' assms(2) show ?thesis by (auto simp: st)
qed

lemma visit_children_table:
  "visit_children nid cs st = Inr st' \<Longrightarrow> table_ok N (fst (snd st)) \<Longrightarrow>
   table_ok N (fst (snd st'))"
proof (induction cs arbitrary: st)
  case Nil
  then show ?case by simp
next
  case (Cons c cs)
  from Cons.prems(1) obtain st1 where s: "visit_child nid c st = Inr st1"
    "visit_children nid cs st1 = Inr st'"
    by (auto split: sum.splits)
  from Cons.IH[OF s(2) visit_child_table[OF s(1) Cons.prems(2)]] show ?case .
qed

lemma process_queue_table:
  "process_queue children st = Inr st' \<Longrightarrow> table_ok N (fst (snd st)) \<Longrightarrow>
   table_ok N (fst (snd st'))"
proof (induction children st rule: process_queue.induct)
  case (1 children indegree levels)
  then show ?case by simp
next
  case (2 children indegree levels nid queue)
  from "2.prems"(1) obtain st1 where
    st1: "visit_children nid (children_of children nid) (indegree, levels, queue) = Inr st1"
    "process_queue children st1 = Inr st'"
    by (auto split: sum.splits)
  from "2.prems"(2) have "table_ok N (fst (snd (indegree, levels, queue)))" by simp
  from "2.IH"[OF st1 visit_children_table[OF st1(1) this]] show ?case .
qed

lemma table_ok_fold:
  "table_ok N levels \<Longrightarrow> set ks \<subseteq> N \<Longrightarrow> v = None \<or> v = Some 0 \<Longrightarrow>
   table_ok N (fold (\<lambda>k. AList.update k v) ks levels)"
proof (induction ks arbitrary: levels)
  case Nil
  then show ?case by simp
next
  case (Cons k ks)
  have "table_ok N (AList.update k v levels)"
    using Cons.prems
    by (auto simp: table_ok_def AList.distinct_update AList.dom_update AList.update_conv')
  with Cons show ?case by simp
qed

lemma assign_levels_table:
  assumes "assign_levels nodes links = Inr levels"
  shows "table_ok (set nodes) levels"
proof -
  let ?c = "count_links nodes links"
  let ?Q = "initial_queue (snd ?c)"
  let ?st = "(snd ?c, initial_levels nodes ?Q, ?Q)"
  from assms obtain st' where st': "process_queue (fst ?c) ?st = Inr st'" "levels = fst (snd st')"
    by (auto simp: assign_levels_def Let_def split: sum.splits)
  have "set ?Q \<subseteq> set nodes"
  proof
    fix n assume "n \<in> set ?Q"
    then have m: "map_of (snd ?c) n = Some 0"
      using initial_queue_set(2)[OF count_links_distinct] by blast
    show "n \<in> set nodes"
    proof (rule ccontr)
      assume "n \<notin> set nodes"
      with m have "n \<in> snd ` set (node_edges links)" "in_count (node_edges links) n = 0"
        by (auto simp: count_links_indegree split: if_splits)
      then show False by (auto simp: in_count_def filter_empty_conv)
    qed
  qed
  have q: "set ?Q \<subseteq> set nodes" by fact
  have t0: "table_ok (set nodes) (fold (\<lambda>nid. AList.update nid None) nodes [])"
    by (rule table_ok_fold) (auto simp: table_ok_def)
  have "table_ok (set nodes) (initial_levels nodes ?Q)"
    unfolding initial_levels_def by (rule table_ok_fold[OF t0 q]) simp
  from process_queue_table[OF st'(1)] this st'(2) show ?thesis by simp
qed

text \<open>Sorting the group keys.\<close>

lemma group_distinct_fold:
  "distinct (map fst acc) \<Longrightarrow> distinct (map fst (fold add_to_group ls acc))"
  by (induction ls arbitrary: acc) (auto simp: add_to_group_def AList.distinct_update)

lemma group_levels_Some:
  assumes "None \<notin> snd ` set levels"
  shows "group_levels levels =
           Inr (map (\<lambda>k. map fst (filter (\<lambda>p. snd p = Some k) levels))
                    (sort (map the (map fst (fold add_to_group levels [])))))"
proof -
  let ?G = "fold add_to_group levels []"
  have "None \<notin> set (map fst ?G)"
    using assms group_keys_fold[of levels "[]"] by simp
  then have "py_sorted (map fst ?G) = Inr (map Some (sort (map the (map fst ?G))))"
    by (simp add: py_sorted_def)
  moreover have "group_of ?G (Some k) = map fst (filter (\<lambda>p. snd p = Some k) levels)" for k
    using group_of_fold[of levels "[]" "Some k"] by (simp add: group_of_def)
  ultimately show ?thesis
    by (simp add: group_levels_def Let_def comp_def)
qed

lemma group_keys_sorted:
  assumes "None \<notin> snd ` set levels"
  shows "sorted_wrt (<) (sort (map the (map fst (fold add_to_group levels []))))"
    and "set (sort (map the (map fst (fold add_to_group levels [])))) = {k. Some k \<in> snd ` set levels}"
proof -
  let ?G = "fold add_to_group levels []"
  have keys: "set (map fst ?G) = snd ` set levels"
    using group_keys_fold[of levels "[]"] by simp
  have d: "distinct (map fst ?G)" by (simp add: group_distinct_fold)
  have "inj_on the (set (map fst ?G))"
    unfolding keys using assms by (intro inj_onI) (metis option.collapse)
  with d have "distinct (map the (map fst ?G))"
    using distinct_map[of the "map fst ?G"] by blast
  then show "sorted_wrt (<) (sort (map the (map fst ?G)))"
    by (simp add: strict_sorted_iff)
  show "set (sort (map the (map fst ?G))) = {k. Some k \<in> snd ` set levels}"
  proof -
    have "set (sort (map the (map fst ?G))) = the ` snd ` set levels"
      using keys by (simp add: image_image) (metis image_image list.set_map)
    also have "\<dots> = {k. Some k \<in> snd ` set levels}"
      using assms by (force simp: image_iff)
    finally show ?thesis .
  qed
qed

lemma length_two: "a \<in> set xs \<Longrightarrow> b \<in> set xs \<Longrightarrow> a \<noteq> b \<Longrightarrow> 2 \<le> length xs"
  by (cases xs; cases "tl xs") auto

lemma group_levels_Inr_no_None:
  assumes "group_levels levels = Inr groups" "(n, Some k) \<in> set levels"
  shows "None \<notin> snd ` set levels"
proof
  assume no: "None \<in> snd ` set levels"
  let ?ks = "map fst (fold add_to_group levels [])"
  have keys: "set ?ks = snd ` set levels"
    using group_keys_fold[of levels "[]"] by simp
  have "Some k \<in> set ?ks" using assms(2) keys by force
  moreover have "None \<in> set ?ks" using no keys by simp
  ultimately have "2 \<le> length ?ks" by (rule length_two) simp
  with \<open>None \<in> set ?ks\<close> have "py_sorted ?ks = Inl TypeError"
    by (simp add: py_sorted_def)
  with assms(1) show False
    by (simp add: group_levels_def Let_def)
qed

lemma root_first_group:
  assumes run: "compute_levels nodes links = Inr groups"
    and n: "n \<in> fst ` set nodes"
    and noin: "\<forall>l \<in> set links. nodeId (target l) \<noteq> n"
  shows "groups \<noteq> [] \<and> n \<in> set (hd groups)"
proof -
  from run obtain levels where lv: "assign_levels (map fst nodes) links = Inr levels"
    and gr: "group_levels levels = Inr groups"
    by (auto simp: compute_levels_def split: sum.splits)
  from n have n': "n \<in> set (map fst nodes)" by simp
  from root_level_zero[OF n' noin lv] have n0: "(n, Some 0) \<in> set levels"
    by (rule map_of_SomeD)
  from assign_levels_table[OF lv] have tab: "table_ok (set (map fst nodes)) levels" .
  have nonneg: "0 \<le> k" if "Some k \<in> snd ` set levels" for k
  proof -
    from that obtain m where "(m, Some k) \<in> set levels" by force
    with tab have "map_of levels m = Some (Some k)"
      by (simp add: table_ok_def)
    with tab show ?thesis by (auto simp: table_ok_def)
  qed
  have noNone: "None \<notin> snd ` set levels"
    by (rule group_levels_Inr_no_None[OF gr n0])
  define ks where "ks = sort (map the (map fst (fold add_to_group levels [])))"
  have groups: "groups = map (\<lambda>k. map fst (filter (\<lambda>p. snd p = Some k) levels)) ks"
    using group_levels_Some[OF noNone] gr unfolding ks_def by simp
  have ks: "sorted ks" "set ks = {k. Some k \<in> snd ` set levels}"
    unfolding ks_def using group_keys_sorted(2)[OF noNone] by simp_all
  have in0: "0 \<in> set ks" unfolding ks(2) using n0 by force
  then have ne: "ks \<noteq> []" by (metis empty_iff empty_set)
  from in0 obtain i where i: "i < length ks" "ks ! i = 0"
    unfolding in_set_conv_nth by blast
  have "ks ! 0 \<le> ks ! i"
    by (rule sorted_nth_mono[OF ks(1) _ i(1)]) simp
  moreover have "0 \<le> ks ! 0"
  proof -
    have "ks ! 0 \<in> set ks" using ne by (metis length_greater_0_conv nth_mem)
    with ks(2) nonneg show ?thesis by blast
  qed
  ultimately have "hd ks = 0" using i(2) ne by (simp add: hd_conv_nth)
  then have "hd groups = map fst (filter (\<lambda>p. snd p = Some 0) levels)"
    unfolding groups using ne by (simp add: hd_map)
  moreover have "n \<in> set (map fst (filter (\<lambda>p. snd p = Some 0) levels))"
    using n0 by force
  moreover have "groups \<noteq> []" unfolding groups using ne by simp
  ultimately show ?thesis by simp
qed

lemma levels_forward_groups:
  assumes ac: "acyclic (set (node_edges links))"
    and ends: "\<forall>l \<in> set links. nodeId (source l) \<in> fst ` set nodes \<and>
                  nodeId (target l) \<in> fst ` set nodes"
  shows "\<exists>levels groups.
           assign_levels (map fst nodes) links = Inr levels \<and>
           compute_levels nodes links = Inr groups \<and>
           (\<forall>l \<in> set links. \<exists>a b i j.
               map_of levels (nodeId (source l)) = Some (Some a) \<and>
               map_of levels (nodeId (target l)) = Some (Some b) \<and> a < b \<and>
               i < j \<and> j < length groups \<and>
               nodeId (source l) \<in> set (groups ! i) \<and> nodeId (target l) \<in> set (groups ! j))"
proof -
  from ends have ends': "\<forall>l \<in> set links. nodeId (source l) \<in> set (map fst nodes) \<and>
      nodeId (target l) \<in> set (map fst nodes)" by simp
  from levels_forward[OF ac ends'] obtain levels where
    lv: "assign_levels (map fst nodes) links = Inr levels"
    and all: "\<forall>n \<in> set (map fst nodes). \<exists>k. map_of levels n = Some (Some k)"
    and fw: "\<forall>l \<in> set links. \<exists>a b.
               map_of levels (nodeId (source l)) = Some (Some a) \<and>
               map_of levels (nodeId (target l)) = Some (Some b) \<and> a < b"
    by blast
  from assign_levels_table[OF lv] have tab: "table_ok (set (map fst nodes)) levels" .
  have noNone: "None \<notin> snd ` set levels"
  proof
    assume "None \<in> snd ` set levels"
    then obtain m where m: "(m, None) \<in> set levels" by force
    then have "m \<in> fst ` set levels" by force
    with tab m have "map_of levels m = Some None" "m \<in> set (map fst nodes)"
      by (auto simp: table_ok_def)
    with all show False by force
  qed
  define ks where "ks = sort (map the (map fst (fold add_to_group levels [])))"
  let ?groups = "map (\<lambda>k. map fst (filter (\<lambda>p. snd p = Some k) levels)) ks"
  have gr: "compute_levels nodes links = Inr ?groups"
    using group_levels_Some[OF noNone] lv unfolding ks_def by (simp add: compute_levels_def)
  have ks: "sorted ks" "set ks = {k. Some k \<in> snd ` set levels}"
    unfolding ks_def using group_keys_sorted(2)[OF noNone] by simp_all
  have "\<exists>a b i j.
          map_of levels (nodeId (source l)) = Some (Some a) \<and>
          map_of levels (nodeId (target l)) = Some (Some b) \<and> a < b \<and>
          i < j \<and> j < length ?groups \<and>
          nodeId (source l) \<in> set (?groups ! i) \<and> nodeId (target l) \<in> set (?groups ! j)"
    if l: "l \<in> set links" for l
  proof -
    from fw l obtain a b where ab:
      "map_of levels (nodeId (source l)) = Some (Some a)"
      "map_of levels (nodeId (target l)) = Some (Some b)" "a < b"
      by blast
    have sa: "(nodeId (source l), Some a) \<in> set levels"
      and tb: "(nodeId (target l), Some b) \<in> set levels"
      using ab(1,2) by (auto dest: map_of_SomeD)
    then have "a \<in> set ks" "b \<in> set ks"
      unfolding ks(2) by force+
    then obtain i j where ij: "i < length ks" "ks ! i = a" "j < length ks" "ks ! j = b"
      unfolding in_set_conv_nth by blast
    have "i < j"
    proof (rule ccontr)
      assume "\<not> i < j"
      then have "j \<le> i" by simp
      from sorted_nth_mono[OF ks(1) this ij(1)] ij ab(3) show False by simp
    qed
    moreover have "nodeId (source l) \<in> set (?groups ! i)"
      using ij(1,2) sa by force
    moreover have "nodeId (target l) \<in> set (?groups ! j)"
      using ij(3,4) tb by force
    moreover have "j < length ?groups" using ij(3) by simp
    ultimately show ?thesis using ab by blast
  qed
  with lv gr show ?thesis by blast
qed

subsection \<open>The example flows, evaluated\<close>

lemmas compute_levels_eval = compute_levels_def assign_levels_def count_links_def add_link_def
  children_of_def initial_queue_def initial_levels_def group_levels_def add_to_group_def
  group_of_def py_sorted_def Let_def mk_link_def

lemma flow_cycle_result:
  "readFlow flow_cycle =
     Inr (catalog_cycle,
          [mk_link ''A'' ''B'' ''y'' ''x'', mk_link ''B'' ''C'' ''z'' ''y'',
           mk_link ''C'' ''A'' ''x'' ''z''])"
  by (simp add: flow_cycle_def catalog_cycle_def readFlow_eval mk_link_def)

lemma cycle_levels:
  "compute_levels catalog_cycle
     [mk_link ''A'' ''B'' ''y'' ''x'', mk_link ''B'' ''C'' ''z'' ''y'',
      mk_link ''C'' ''A'' ''x'' ''z''] = Inr [[''A'', ''B'', ''C'']]"
  by (simp add: catalog_cycle_def compute_levels_eval)

lemma cycle_levels0:
  "compute_levels catalog_cycle [] = Inr [[''A'', ''B'', ''C'']]"
  by (simp add: catalog_cycle_def compute_levels_eval)

lemma a_levels:
  "compute_levels catalog_a [mk_link ''Node1'' ''Node2'' ''b'' ''a''] = Inr [[''Node1''], [''Node2'']]"
  by (simp add: catalog_a_def compute_levels_eval)

lemma a_table:
  "assign_levels (map fst catalog_a) [mk_link ''Node1'' ''Node2'' ''b'' ''a''] =
     Inr [(''Node1'', Some 0), (''Node2'', Some 1)]"
  by (simp add: catalog_a_def compute_levels_eval)

lemma acyclic_no_edges: "acyclic {}"
  by (simp add: acyclic_def)

subsection \<open>The claims about compute_levels and main\<close>

text \<open>
  Claim C5. When the node-level edges of the links that \<open>readFlow\<close> emits form an acyclic
  graph, the level table is complete, the level of every link's target node is strictly
  greater than the level of its source node, \<open>compute_levels\<close> returns, and in the groups
  returned the source node of every link stands in an earlier group than its target node.
\<close>

theorem links_point_forward:
  assumes "readFlow file = Inr (nodes, links)" and "acyclic (set (node_edges links))"
  shows "\<exists>levels groups.
           assign_levels (map fst nodes) links = Inr levels \<and>
           compute_levels nodes links = Inr groups \<and>
           (\<forall>l \<in> set links. \<exists>a b i j.
               map_of levels (nodeId (source l)) = Some (Some a) \<and>
               map_of levels (nodeId (target l)) = Some (Some b) \<and> a < b \<and>
               i < j \<and> j < length groups \<and>
               nodeId (source l) \<in> set (groups ! i) \<and> nodeId (target l) \<in> set (groups ! j))"
proof -
  have "\<forall>l \<in> set links. nodeId (source l) \<in> fst ` set nodes \<and>
          nodeId (target l) \<in> fst ` set nodes"
  proof
    fix l assume "l \<in> set links"
    from link_origin[OF assms(1) this]
    show "nodeId (source l) \<in> fst ` set nodes \<and> nodeId (target l) \<in> fst ` set nodes"
      by (auto dest: map_of_Some_key)
  qed
  from levels_forward_groups[OF assms(2) this] show ?thesis .
qed

theorem links_point_forward_witness:
  "readFlow flow_a = Inr (catalog_a, [mk_link ''Node1'' ''Node2'' ''b'' ''a'']) \<and>
   acyclic (set (node_edges [mk_link ''Node1'' ''Node2'' ''b'' ''a''])) \<and>
   (\<exists>levels groups.
      assign_levels (map fst catalog_a) [mk_link ''Node1'' ''Node2'' ''b'' ''a''] = Inr levels \<and>
      compute_levels catalog_a [mk_link ''Node1'' ''Node2'' ''b'' ''a''] = Inr groups \<and>
      (\<exists>a b i j. map_of levels ''Node1'' = Some (Some a) \<and>
         map_of levels ''Node2'' = Some (Some b) \<and> a < b \<and> i < j \<and> j < length groups \<and>
         ''Node1'' \<in> set (groups ! i) \<and> ''Node2'' \<in> set (groups ! j)))"
proof -
  let ?links = "[mk_link ''Node1'' ''Node2'' ''b'' ''a'']"
  have r: "readFlow flow_a = Inr (catalog_a, ?links)" by (rule flow_a_result)
  have ac: "acyclic (set (node_edges ?links))"
    by (simp add: node_edges_def mk_link_def acyclic_no_edges)
  from links_point_forward [OF r ac] obtain levels groups where
    "assign_levels (map fst catalog_a) ?links = Inr levels"
    "compute_levels catalog_a ?links = Inr groups"
    "\<forall>l \<in> set ?links. \<exists>a b i j.
               map_of levels (nodeId (source l)) = Some (Some a) \<and>
               map_of levels (nodeId (target l)) = Some (Some b) \<and> a < b \<and>
               i < j \<and> j < length groups \<and>
               nodeId (source l) \<in> set (groups ! i) \<and> nodeId (target l) \<in> set (groups ! j)"
    by blast
  then show ?thesis using r ac by (simp add: mk_link_def)
qed

text \<open>
  Claim C6. A node of the catalog that no link points at has level 0 in the level table
  whenever the table is computed; the table is computed whenever every link's target is
  a node of the catalog; and whenever \<open>compute_levels\<close> returns, the node is in the first
  group returned.
\<close>

theorem root_gets_level_zero:
  assumes "n \<in> fst ` set nodes" and "\<forall>l \<in> set links. nodeId (target l) \<noteq> n"
  shows "(\<forall>levels. assign_levels (map fst nodes) links = Inr levels \<longrightarrow>
            map_of levels n = Some (Some 0)) \<and>
         ((\<forall>l \<in> set links. nodeId (target l) \<in> fst ` set nodes) \<longrightarrow>
            (\<exists>levels. assign_levels (map fst nodes) links = Inr levels)) \<and>
         (\<forall>groups. compute_levels nodes links = Inr groups \<longrightarrow>
            groups \<noteq> [] \<and> n \<in> set (hd groups))"
proof (intro conjI allI impI)
  fix levels assume "assign_levels (map fst nodes) links = Inr levels"
  with assms show "map_of levels n = Some (Some 0)"
    by (intro root_level_zero) auto
next
  assume "\<forall>l \<in> set links. nodeId (target l) \<in> fst ` set nodes"
  then have "\<forall>l \<in> set links. nodeId (target l) \<in> set (map fst nodes)" by simp
  from assign_levels_run[OF this] show "\<exists>levels. assign_levels (map fst nodes) links = Inr levels"
    by blast
next
  fix groups assume g: "compute_levels nodes links = Inr groups"
  from root_first_group[OF g assms] show "groups \<noteq> []" "n \<in> set (hd groups)"
    by simp_all
qed

theorem root_gets_level_zero_witness:
  "''Node1'' \<in> fst ` set catalog_a \<and>
   assign_levels (map fst catalog_a) [mk_link ''Node1'' ''Node2'' ''b'' ''a''] =
     Inr [(''Node1'', Some 0), (''Node2'', Some 1)] \<and>
   map_of [(''Node1'', Some (0::int)), (''Node2'', Some 1)] ''Node1'' = Some (Some 0) \<and>
   compute_levels catalog_a [mk_link ''Node1'' ''Node2'' ''b'' ''a''] =
     Inr [[''Node1''], [''Node2'']] \<and>
   ''Node1'' \<in> set (hd [[''Node1''], [''Node2'']])"
proof -
  let ?links = "[mk_link ''Node1'' ''Node2'' ''b'' ''a'']"
  have n: "''Node1'' \<in> fst ` set catalog_a" by (simp add: catalog_a_def)
  have noin: "\<forall>l \<in> set ?links. nodeId (target l) \<noteq> ''Node1''" by (simp add: mk_link_def)
  have t: "assign_levels (map fst catalog_a) ?links = Inr [(''Node1'', Some 0), (''Node2'', Some 1)]"
    by (rule a_table)
  have g: "compute_levels catalog_a ?links = Inr [[''Node1''], [''Node2'']]"
    by (rule a_levels)
  from root_gets_level_zero [OF n noin] t g
  have "map_of [(''Node1'', Some (0::int)), (''Node2'', Some 1)] ''Node1'' = Some (Some 0)"
    "''Node1'' \<in> set (hd [[''Node1''], [''Node2'']])"
    by blast+
  with n t g show ?thesis by blast
qed

text \<open>
  Claim C7. When an edge names a node alias that is not a key of the field catalog (for
  one, an exception node, which the catalog leaves out), \<open>readFlow\<close> raises \<open>KeyError\<close> for
  an alias that some edge names and the catalog lacks; \<open>main\<close> reports it as a load
  failure, exits with status 1 and writes no artifact.
\<close>

theorem dangling_edge_rejected:
  assumes "e \<in> set (fl_edges file)"
    and "ei_source e \<notin> fst ` set (build_nodes (fl_nodes file)) \<or>
         ei_target e \<notin> fst ` set (build_nodes (fl_nodes file))"
  shows "\<exists>k. readFlow file = Inl (KeyError k) \<and>
             k \<notin> fst ` set (build_nodes (fl_nodes file)) \<and>
             (\<exists>e' \<in> set (fl_edges file). k = ei_source e' \<or> k = ei_target e') \<and>
             main (file # rest) writable = Load_failed (KeyError k) \<and>
             exit_code (main (file # rest) writable) = 1 \<and>
             artifact (main (file # rest) writable) = None"
proof -
  let ?st = "(build_nodes (fl_nodes file), [] :: link list)"
  from assms have "\<exists>e \<in> set (fl_edges file).
      ei_source e \<notin> fst ` set (fst ?st) \<or> ei_target e \<notin> fst ` set (fst ?st)"
    by auto
  from process_edges_Inl[OF this] obtain k where
    k: "process_edges (fl_edges file) ?st = Inl (KeyError k)"
    "k \<notin> fst ` set (build_nodes (fl_nodes file))"
    "\<exists>e' \<in> set (fl_edges file). k = ei_source e' \<or> k = ei_target e'"
    by auto
  then have "readFlow file = Inl (KeyError k)" by (simp add: readFlow_def)
  with k(2,3) show ?thesis by (auto simp: main_def)
qed

theorem dangling_edge_rejected_witness:
  "\<lparr>ei_source = ''Node1'', ei_target = ''Node2''\<rparr> \<in> set (fl_edges flow_dangling) \<and>
   ''Node2'' \<notin> fst ` set (build_nodes (fl_nodes flow_dangling)) \<and>
   (\<exists>k. readFlow flow_dangling = Inl (KeyError k) \<and>
        main [flow_dangling] True = Load_failed (KeyError k) \<and>
        exit_code (main [flow_dangling] True) = 1 \<and>
        artifact (main [flow_dangling] True) = None)"
proof -
  let ?e = "\<lparr>ei_source = ''Node1'', ei_target = ''Node2''\<rparr>"
  have e: "?e \<in> set (fl_edges flow_dangling)" by (simp add: flow_dangling_def)
  have k: "''Node2'' \<notin> fst ` set (build_nodes (fl_nodes flow_dangling))"
    by (simp add: flow_dangling_def readFlow_eval)
  then have "ei_source ?e \<notin> fst ` set (build_nodes (fl_nodes flow_dangling)) \<or>
         ei_target ?e \<notin> fst ` set (build_nodes (fl_nodes flow_dangling))" by simp
  from dangling_edge_rejected [OF e this, of "[]" True] e k show ?thesis by blast
qed

text \<open>
  Claim C1, as amended. Nothing in \<open>compute_levels\<close> reports nodes that are left without a
  level. When every node of the catalog has an inbound link, as in a cycle through all
  nodes, no node receives a level: the level table holds \<open>None\<close> for every node, and
  \<open>compute_levels\<close> returns normally with one group that holds all nodes in catalog order.
\<close>

theorem no_roots_single_group:
  assumes "distinct (map fst nodes)" and "nodes \<noteq> []"
    and "\<forall>n \<in> fst ` set nodes. \<exists>l \<in> set links. nodeId (target l) = n"
  shows "assign_levels (map fst nodes) links = Inr (map (\<lambda>n. (n, None)) (map fst nodes)) \<and>
         compute_levels nodes links = Inr [map fst nodes]"
proof
  show "assign_levels (map fst nodes) links = Inr (map (\<lambda>n. (n, None)) (map fst nodes))"
    using no_roots_levels[OF assms(1)] assms(3) by simp
  show "compute_levels nodes links = Inr [map fst nodes]"
    by (rule no_roots_one_group[OF assms])
qed

theorem no_roots_single_group_witness:
  "distinct (map fst catalog_cycle) \<and> catalog_cycle \<noteq> [] \<and>
   map fst catalog_cycle = [''A'', ''B'', ''C''] \<and>
   compute_levels catalog_cycle
     [mk_link ''A'' ''B'' ''y'' ''x'', mk_link ''B'' ''C'' ''z'' ''y'',
      mk_link ''C'' ''A'' ''x'' ''z''] = Inr [map fst catalog_cycle]"
proof -
  let ?links = "[mk_link ''A'' ''B'' ''y'' ''x'', mk_link ''B'' ''C'' ''z'' ''y'',
      mk_link ''C'' ''A'' ''x'' ''z'']"
  have d: "distinct (map fst catalog_cycle)" and ne: "catalog_cycle \<noteq> []"
    and keys: "map fst catalog_cycle = [''A'', ''B'', ''C'']"
    by (simp_all add: catalog_cycle_def)
  have inb: "\<forall>n \<in> fst ` set catalog_cycle. \<exists>l \<in> set ?links. nodeId (target l) = n"
    by (simp add: catalog_cycle_def mk_link_def)
  from no_roots_single_group [OF d ne inb] d ne keys show ?thesis by blast
qed

text \<open>
  Claim C1 as stated fails. For the cycle \<open>A \<rightarrow> B \<rightarrow> C \<rightarrow> A\<close> that \<open>readFlow\<close> infers from
  \<open>flow_cycle\<close>, \<open>compute_levels\<close> returns the single group \<open>[A, B, C]\<close>, the same value it
  returns for the three nodes with no link at all, and \<open>main\<close> exits with status 0:
  nothing flags the three nodes as unresolved.
\<close>

theorem cycle_not_reported_counterexample:
  "readFlow flow_cycle =
     Inr (catalog_cycle,
          [mk_link ''A'' ''B'' ''y'' ''x'', mk_link ''B'' ''C'' ''z'' ''y'',
           mk_link ''C'' ''A'' ''x'' ''z'']) \<and>
   compute_levels catalog_cycle
     [mk_link ''A'' ''B'' ''y'' ''x'', mk_link ''B'' ''C'' ''z'' ''y'',
      mk_link ''C'' ''A'' ''x'' ''z''] = Inr [[''A'', ''B'', ''C'']] \<and>
   compute_levels catalog_cycle [] = Inr [[''A'', ''B'', ''C'']] \<and>
   exit_code (main [flow_cycle] True) = 0"
  by (simp add: flow_cycle_result cycle_levels cycle_levels0 main_def)

section \<open>Properties of the reachability highlighter\<close>

definition mentioned :: "string list dict \<Rightarrow> string set" where
  "mentioned m = \<Union> (set ` snd ` set m)"

lemma adjacent_mentioned: "set (adjacent m k) \<subseteq> mentioned m"
proof (cases "map_of m k")
  case None
  then show ?thesis by (simp add: adjacent_def)
next
  case (Some ks)
  then have "(k, ks) \<in> set m" by (rule map_of_SomeD)
  then have "set ks \<subseteq> mentioned m" by (force simp: mentioned_def)
  with Some show ?thesis by (simp add: adjacent_def)
qed

lemma reachable_finite: "finite ((edges_of m)\<^sup>* `` {key})"
proof -
  have "y = key \<or> y \<in> mentioned m" if "(key, y) \<in> (edges_of m)\<^sup>*" for y
    using that
  proof (induction rule: rtrancl_induct)
    case base
    then show ?case by simp
  next
    case (step y z)
    then have "z \<in> set (adjacent m y)" by (simp add: edges_of_def)
    with adjacent_mentioned show ?case by blast
  qed
  then have "(edges_of m)\<^sup>* `` {key} \<subseteq> insert key (mentioned m)" by auto
  moreover have "finite (insert key (mentioned m))" by (simp add: mentioned_def)
  ultimately show ?thesis by (rule finite_subset)
qed

lemma adjacent_step: "b \<in> set (adjacent m a) \<Longrightarrow> (edges_of m)\<^sup>* `` {b} \<subseteq> (edges_of m)\<^sup>* `` {a}"
proof -
  assume "b \<in> set (adjacent m a)"
  then have "(a, b) \<in> edges_of m" by (simp add: edges_of_def)
  then show ?thesis by (auto intro: converse_rtrancl_into_rtrancl)
qed

text \<open>What a walk that returns has visited.\<close>

lemma traverse_each_spec:
  "traverse_each limit depth m ks vis = Inr R \<Longrightarrow>
   set vis \<subseteq> set R \<and> set ks \<subseteq> set R \<and>
   set R \<subseteq> set vis \<union> (edges_of m)\<^sup>* `` set ks \<and>
   (\<forall>x \<in> set R - set vis. set (adjacent m x) \<subseteq> set R)"
proof (induction limit depth m ks vis arbitrary: R rule: traverse_each.induct)
  case (1 limit depth m vis)
  then show ?case by simp
next
  case (2 limit depth m k ks vis)
  from "2.prems" have lim: "\<not> limit \<le> depth" by (auto split: if_splits)
  show ?case
  proof (cases "k \<in> set vis")
    case True
    with "2.prems" lim have "traverse_each limit depth m ks vis = Inr R" by simp
    from "2.IH"(1)[OF lim True this] True show ?thesis by auto
  next
    case False
    with "2.prems" lim obtain V1 where
      V1: "traverse_each limit (Suc depth) m (adjacent m k) (vis @ [k]) = Inr V1"
      and R: "traverse_each limit depth m ks V1 = Inr R"
      by (auto split: sum.splits)
    from "2.IH"(2)[OF lim False V1] have a:
      "set (vis @ [k]) \<subseteq> set V1" "set (adjacent m k) \<subseteq> set V1"
      "set V1 \<subseteq> set (vis @ [k]) \<union> (edges_of m)\<^sup>* `` set (adjacent m k)"
      "\<forall>x \<in> set V1 - set (vis @ [k]). set (adjacent m x) \<subseteq> set V1"
      by blast+
    from "2.IH"(3)[OF lim False V1 R] have b:
      "set V1 \<subseteq> set R" "set ks \<subseteq> set R"
      "set R \<subseteq> set V1 \<union> (edges_of m)\<^sup>* `` set ks"
      "\<forall>x \<in> set R - set V1. set (adjacent m x) \<subseteq> set R"
      by blast+
    have g1: "set vis \<subseteq> set R" using a(1) b(1) by auto
    have g2: "set (k # ks) \<subseteq> set R" using a(1) b(1,2) by auto
    have "(edges_of m)\<^sup>* `` set (adjacent m k) \<subseteq> (edges_of m)\<^sup>* `` {k}"
      using adjacent_step[of _ m k] by blast
    with a(3) have "set V1 \<subseteq> set vis \<union> (edges_of m)\<^sup>* `` {k}"
      by auto
    with b(3) have g3: "set R \<subseteq> set vis \<union> (edges_of m)\<^sup>* `` set (k # ks)"
      by auto
    have g4: "\<forall>x \<in> set R - set vis. set (adjacent m x) \<subseteq> set R"
    proof
      fix x assume x: "x \<in> set R - set vis"
      show "set (adjacent m x) \<subseteq> set R"
      proof (cases "x \<in> set V1")
        case False
        with x b(4) show ?thesis by blast
      next
        case True
        show ?thesis
        proof (cases "x = k")
          case True
          with a(2) b(1) show ?thesis by auto
        next
          case False
          with True x have "x \<in> set V1 - set (vis @ [k])" by simp
          with a(4) b(1) show ?thesis by blast
        qed
      qed
    qed
    from g1 g2 g3 g4 show ?thesis by blast
  qed
qed

lemma traverse_exact:
  assumes "traverse limit m key [] = Inr R"
  shows "set R = (edges_of m)\<^sup>* `` {key}"
proof
  from traverse_each_spec[OF assms[unfolded traverse_def]]
  have sub: "set R \<subseteq> (edges_of m)\<^sup>* `` {key}" and key: "key \<in> set R"
    and closed: "\<forall>x \<in> set R. set (adjacent m x) \<subseteq> set R"
    by simp_all
  show "set R \<subseteq> (edges_of m)\<^sup>* `` {key}" by (rule sub)
  have "y \<in> set R" if "(key, y) \<in> (edges_of m)\<^sup>*" for y
    using that
  proof (induction rule: rtrancl_induct)
    case base
    then show ?case by (rule key)
  next
    case (step y z)
    then have "z \<in> set (adjacent m y)" by (simp add: edges_of_def)
    with step.IH closed show ?case by blast
  qed
  then show "(edges_of m)\<^sup>* `` {key} \<subseteq> set R" by auto
qed

text \<open>
  The walk returns when the stack admits more activations than there are keys to reach:
  every activation but the innermost has put a key of its own into the visited set.
\<close>

lemma traverse_each_returns:
  "finite U \<Longrightarrow> card U < limit \<Longrightarrow> \<forall>k \<in> U. set (adjacent m k) \<subseteq> U \<Longrightarrow>
   distinct vis \<Longrightarrow> set vis \<subseteq> U \<Longrightarrow> set ks \<subseteq> U \<Longrightarrow> depth \<le> length vis \<Longrightarrow>
   \<exists>R. traverse_each limit depth m ks vis = Inr R \<and> distinct R \<and> set vis \<subseteq> set R \<and> set R \<subseteq> U"
proof (induction limit depth m ks vis rule: traverse_each.induct)
  case (1 limit depth m vis)
  then show ?case by simp
next
  case (2 limit depth m k ks vis)
  have "length vis = card (set vis)"
    using "2.prems"(4) by (simp add: distinct_card)
  also have "\<dots> \<le> card U"
    using "2.prems"(1,5) by (simp add: card_mono)
  finally have lim: "\<not> limit \<le> depth"
    using "2.prems"(2,7) by simp
  have kU: "k \<in> U" and ksU: "set ks \<subseteq> U" using "2.prems"(6) by auto
  show ?case
  proof (cases "k \<in> set vis")
    case True
    from "2.IH"(1)[OF lim True "2.prems"(1,2,3,4,5) ksU "2.prems"(7)]
    show ?thesis using lim True by simp
  next
    case False
    have "\<exists>V1. traverse_each limit (Suc depth) m (adjacent m k) (vis @ [k]) = Inr V1 \<and>
        distinct V1 \<and> set (vis @ [k]) \<subseteq> set V1 \<and> set V1 \<subseteq> U"
      using "2.prems" False kU
      by (intro "2.IH"(2)[OF lim False]) auto
    then obtain V1 where V1:
      "traverse_each limit (Suc depth) m (adjacent m k) (vis @ [k]) = Inr V1"
      "distinct V1" "set (vis @ [k]) \<subseteq> set V1" "set V1 \<subseteq> U"
      by blast
    have "length vis = card (set vis)"
      using "2.prems"(4) by (simp add: distinct_card)
    also have "\<dots> \<le> card (set V1)"
      using V1(3) by (intro card_mono) auto
    also have "\<dots> = length V1" using V1(2) by (simp add: distinct_card)
    finally have d: "depth \<le> length V1" using "2.prems"(7) by simp
    from "2.IH"(3)[OF lim False V1(1) "2.prems"(1,2,3) V1(2,4) ksU d]
    obtain R where R: "traverse_each limit depth m ks V1 = Inr R" "distinct R"
      "set V1 \<subseteq> set R" "set R \<subseteq> U"
      by blast
    from R V1 lim False show ?thesis by auto
  qed
qed

lemma traverse_returns:
  assumes "card ((edges_of m)\<^sup>* `` {key}) < limit"
  shows "\<exists>R. traverse limit m key [] = Inr R \<and> distinct R"
proof -
  let ?U = "(edges_of m)\<^sup>* `` {key}"
  have closed: "\<forall>k \<in> ?U. set (adjacent m k) \<subseteq> ?U"
    by (auto simp: edges_of_def intro: rtrancl_into_rtrancl)
  have "\<exists>R. traverse_each limit 0 m [key] [] = Inr R \<and> distinct R \<and>
          set [] \<subseteq> set R \<and> set R \<subseteq> ?U"
    by (rule traverse_each_returns[OF reachable_finite assms closed]) auto
  then show ?thesis unfolding traverse_def by blast
qed

lemma adjacent_fold:
  "adjacent (fold (\<lambda>l. push_adjacent (f l) (g l)) links m) a =
     adjacent m a @ map g (filter (\<lambda>l. f l = a) links)"
proof (induction links arbitrary: m)
  case Nil
  then show ?case by simp
next
  case (Cons l links)
  have "adjacent (push_adjacent (f l) (g l) m) a = adjacent m a @ map g (filter (\<lambda>l. f l = a) [l])"
    by (simp add: push_adjacent_def adjacent_def AList.update_conv')
  with Cons.IH[of "push_adjacent (f l) (g l) m"] show ?case by simp
qed

lemma adjacent_fwd:
  "adjacent (fwd links) a =
     map (\<lambda>l. field_key (target l)) (filter (\<lambda>l. field_key (source l) = a) links)"
  unfolding fwd_def adjacent_fold by (simp add: adjacent_def)

lemma adjacent_bwd:
  "adjacent (bwd links) a =
     map (\<lambda>l. field_key (source l)) (filter (\<lambda>l. field_key (target l) = a) links)"
  unfolding bwd_def adjacent_fold by (simp add: adjacent_def)

lemma edges_of_fwd: "edges_of (fwd links) = link_keys links"
  by (auto simp: edges_of_def link_keys_def adjacent_fwd)

lemma edges_of_bwd: "edges_of (bwd links) = (link_keys links)\<inverse>"
  by (auto simp: edges_of_def link_keys_def adjacent_bwd)

text \<open>The chain: one key after the other, so the walk nests once per key.\<close>

lemma chain_key_inj: "chain_key i = chain_key j \<longleftrightarrow> i = j"
proof
  assume "chain_key i = chain_key j"
  then have "length (chain_key i) = length (chain_key j)" by simp
  then show "i = j" by (simp add: chain_key_def field_key_def chain_node_def)
qed simp

lemma chain_adjacent:
  "i < n \<Longrightarrow> adjacent (fwd (chain_links n)) (chain_key i) = [chain_key (Suc i)]"
proof -
  assume i: "i < n"
  have key: "field_key (source (mk_link (chain_node a) (chain_node (Suc a)) ''f'' ''f'')) = chain_key a"
    "field_key (target (mk_link (chain_node a) (chain_node (Suc a)) ''f'' ''f'')) = chain_key (Suc a)" for a
    by (simp_all add: mk_link_def chain_key_def)
  have "filter (\<lambda>a. a = i) [0..<n] = [i]"
    using i by (induction n) auto
  then show ?thesis
    by (simp add: adjacent_fwd chain_links_def filter_map comp_def key chain_key_inj)
qed

lemma chain_overflow:
  "i + (limit - depth) \<le> n \<Longrightarrow> \<forall>j \<ge> i. chain_key j \<notin> set vis \<Longrightarrow>
   traverse_each limit depth (fwd (chain_links n)) [chain_key i] vis = Inl RangeError"
proof (induction "limit - depth" arbitrary: i depth vis)
  case 0
  then show ?case by simp
next
  case (Suc d)
  from Suc.hyps(2) have lim: "\<not> limit \<le> depth" by simp
  from Suc.prems(1) Suc.hyps(2) have i: "i < n" by simp
  have new: "chain_key i \<notin> set vis" using Suc.prems(2) by simp
  have "traverse_each limit (Suc depth) (fwd (chain_links n)) [chain_key (Suc i)]
          (vis @ [chain_key i]) = Inl RangeError"
  proof (rule Suc.hyps(1))
    show "d = limit - Suc depth" using Suc.hyps(2) by simp
    show "Suc i + (limit - Suc depth) \<le> n" using Suc.prems(1) Suc.hyps(2) by simp
    show "\<forall>j \<ge> Suc i. chain_key j \<notin> set (vis @ [chain_key i])"
      using Suc.prems(2) by (auto simp: chain_key_inj)
  qed
  with lim new show ?case
    by (simp add: chain_adjacent[OF i])
qed

lemma chain_too_long:
  "limit \<le> n \<Longrightarrow> traverse limit (fwd (chain_links n)) (chain_key 0) [] = Inl RangeError"
  unfolding traverse_def by (rule chain_overflow) simp_all

lemma traverse_unfold:
  "traverse limit m key vis =
     (if limit = 0 then Inl RangeError
      else if key \<in> set vis then Inr vis
      else traverse_each limit 1 m (adjacent m key) (vis @ [key]))"
  by (simp add: traverse_def split: sum.splits)

text \<open>
  Claim C9, as amended. \<open>traverse\<close> ends on every adjacency index, cyclic or not: it
  returns or it throws \<open>RangeError\<close>. Started with an empty visited set, whenever it
  returns it has visited exactly the keys that can be reached from the selected key
  along the index, the key itself included; and it does return whenever the call stack
  admits more nested activations than there are such keys, because of the visited-set
  guard. On the forward index these keys are the ones reachable along the links (the
  descendants), on the backward index the ones reachable against them (the ancestors).
  On a chain of \<open>n\<close> links it throws as soon as the stack admits no more than \<open>n\<close>
  activations.
\<close>

theorem traverse_reachable:
  "(traverse limit m key [] = Inr vis \<longrightarrow> set vis = (edges_of m)\<^sup>* `` {key}) \<and>
   (card ((edges_of m)\<^sup>* `` {key}) < limit \<longrightarrow>
      (\<exists>vis'. traverse limit m key [] = Inr vis' \<and> set vis' = (edges_of m)\<^sup>* `` {key})) \<and>
   edges_of (fwd links) = link_keys links \<and>
   edges_of (bwd links) = (link_keys links)\<inverse> \<and>
   (limit \<le> n \<longrightarrow>
      traverse limit (fwd (chain_links n)) (chain_key 0) [] = Inl RangeError)"
proof (intro conjI impI)
  assume "traverse limit m key [] = Inr vis"
  then show "set vis = (edges_of m)\<^sup>* `` {key}" by (rule traverse_exact)
next
  assume "card ((edges_of m)\<^sup>* `` {key}) < limit"
  from traverse_returns[OF this] obtain R where R: "traverse limit m key [] = Inr R"
    by blast
  with traverse_exact[OF R]
  show "\<exists>vis'. traverse limit m key [] = Inr vis' \<and> set vis' = (edges_of m)\<^sup>* `` {key}"
    by blast
next
  show "edges_of (fwd links) = link_keys links" by (rule edges_of_fwd)
  show "edges_of (bwd links) = (link_keys links)\<inverse>" by (rule edges_of_bwd)
next
  assume "limit \<le> n"
  then show "traverse limit (fwd (chain_links n)) (chain_key 0) [] = Inl RangeError"
    by (rule chain_too_long)
qed

theorem traverse_reachable_witness:
  "traverse 4 (bwd [mk_link ''A'' ''B'' ''y'' ''x'', mk_link ''B'' ''C'' ''z'' ''y'',
                    mk_link ''C'' ''A'' ''x'' ''z'']) ''B|y'' [] =
     Inr [''B|y'', ''A|x'', ''C|z''] \<and>
   (edges_of (bwd [mk_link ''A'' ''B'' ''y'' ''x'', mk_link ''B'' ''C'' ''z'' ''y'',
                   mk_link ''C'' ''A'' ''x'' ''z'']))\<^sup>* `` {''B|y''} =
     {''B|y'', ''A|x'', ''C|z''} \<and>
   card ((edges_of (bwd [mk_link ''A'' ''B'' ''y'' ''x'', mk_link ''B'' ''C'' ''z'' ''y'',
                         mk_link ''C'' ''A'' ''x'' ''z'']))\<^sup>* `` {''B|y''}) < 4 \<and>
   (\<exists>vis'. traverse 4 (bwd [mk_link ''A'' ''B'' ''y'' ''x'', mk_link ''B'' ''C'' ''z'' ''y'',
                             mk_link ''C'' ''A'' ''x'' ''z'']) ''B|y'' [] = Inr vis' \<and>
      set vis' = {''B|y'', ''A|x'', ''C|z''})"
proof -
  let ?m = "bwd [mk_link ''A'' ''B'' ''y'' ''x'', mk_link ''B'' ''C'' ''z'' ''y'',
                 mk_link ''C'' ''A'' ''x'' ''z'']"
  have e: "traverse 4 ?m ''B|y'' [] = Inr [''B|y'', ''A|x'', ''C|z'']"
    by (simp add: traverse_def bwd_def push_adjacent_def adjacent_def field_key_def mk_link_def)
  from traverse_reachable [of 4 ?m "''B|y''" "[''B|y'', ''A|x'', ''C|z'']"] e
  have r: "(edges_of ?m)\<^sup>* `` {''B|y''} = {''B|y'', ''A|x'', ''C|z''}"
    by auto
  then have c: "card ((edges_of ?m)\<^sup>* `` {''B|y''}) < 4"
    by simp
  with traverse_reachable [of 4 ?m "''B|y''"] r
  have "\<exists>vis'. traverse 4 ?m ''B|y'' [] = Inr vis' \<and> set vis' = {''B|y'', ''A|x'', ''C|z''}"
    by simp
  with e r c show ?thesis by blast
qed

text \<open>
  Claim C9 as stated fails: not every finite link set is walked to the end. On the chain
  of 5000 links the descendants of its first key are 5001 keys, one activation of
  \<open>traverse\<close> inside the other; with a call stack that admits 5000 activations (or fewer,
  by the theorem above) the walk throws \<open>RangeError\<close> and returns no set. The same at a
  size that can be traced by hand: two links, a stack of two activations.
\<close>

theorem traverse_reachable_counterexample:
  "traverse 5000 (fwd (chain_links 5000)) (chain_key 0) [] = Inl RangeError \<and>
   traverse 2 (fwd [mk_link ''A'' ''B'' ''y'' ''x'', mk_link ''B'' ''C'' ''z'' ''y''])
     ''A|x'' [] = Inl RangeError"
proof
  show "traverse 5000 (fwd (chain_links 5000)) (chain_key 0) [] = Inl RangeError"
    by (rule chain_too_long) simp
  show "traverse 2 (fwd [mk_link ''A'' ''B'' ''y'' ''x'', mk_link ''B'' ''C'' ''z'' ''y''])
     ''A|x'' [] = Inl RangeError"
    by (simp add: traverse_def fwd_def push_adjacent_def adjacent_def field_key_def mk_link_def)
qed

end
